theory Spec2Isabelle
  imports Complex_Main
begin

section \<open>Strings\<close>

text \<open>
  A Go string that holds valid UTF-8 is a sequence of Unicode code points (runes). Every
  string the program matches or executes comes out of \<^verbatim>\<open>json.Unmarshal\<close>, which replaces
  invalid UTF-8 by U+FFFD, so a message is modelled as the list of its runes. The
  \<^verbatim>\<open>regexp\<close> package walks its input rune by rune, and a substring it returns starts and
  ends between two runes.
\<close>

type_synonym rune = nat
type_synonym gostring = "rune list"

definition runes :: "string \<Rightarrow> gostring" where
  "runes cs = map of_char cs"

section \<open>The regexp package, as far as the pattern of ExtractQuery uses it\<close>

text \<open>
  \<^verbatim>\<open>\w\<close> is the ASCII class \<^verbatim>\<open>[0-9A-Za-z_]\<close>, and \<^verbatim>\<open>\b\<close> is the ASCII word boundary: a word
  rune on one side and a non-word rune, the start or the end of the text on the other.
\<close>

definition is_word_rune :: "rune \<Rightarrow> bool" where
  "is_word_rune r =
     ((48 \<le> r \<and> r \<le> 57) \<or> (65 \<le> r \<and> r \<le> 90) \<or> r = 95 \<or> (97 \<le> r \<and> r \<le> 122))"

definition word_before :: "gostring \<Rightarrow> nat \<Rightarrow> bool" where
  "word_before s i = (0 < i \<and> i \<le> length s \<and> is_word_rune (s ! (i - 1)))"

definition word_after :: "gostring \<Rightarrow> nat \<Rightarrow> bool" where
  "word_after s i = (i < length s \<and> is_word_rune (s ! i))"

definition is_word_boundary :: "gostring \<Rightarrow> nat \<Rightarrow> bool" where
  "is_word_boundary s i = (word_before s i \<noteq> word_after s i)"

text \<open>
  Under the flag \<^verbatim>\<open>(?i)\<close> a literal rune matches every rune of its orbit under
  \<^verbatim>\<open>unicode.SimpleFold\<close>. For an ASCII letter the orbit is the letter in both cases, and
  two orbits have a third member: U+017F (long s) folds with S, and U+212A (the Kelvin
  sign) with K. An ASCII rune that is not a letter folds with itself only. The pattern has
  ASCII literals only, so \<open>fold_orbit\<close> is written for those.
\<close>

definition fold_orbit :: "rune \<Rightarrow> rune list" where
  "fold_orbit c =
     (if 65 \<le> c \<and> c \<le> 90 then [c, c + 32] else
      if 97 \<le> c \<and> c \<le> 122 then [c, c - 32] else [c])
     @ (if c = 83 \<or> c = 115 then [383] else [])
     @ (if c = 75 \<or> c = 107 then [8490] else [])"

definition rune_matches :: "bool \<Rightarrow> rune \<Rightarrow> rune \<Rightarrow> bool" where
  "rune_matches foldCase c r = (if foldCase then r \<in> set (fold_orbit c) else r = c)"

text \<open>The Perl class \<^verbatim>\<open>\s\<close> is \<^verbatim>\<open>[\t\n\f\r ]\<close>; \<^verbatim>\<open>\S\<close> is its complement.\<close>

definition perl_space :: "rune \<Rightarrow> bool" where
  "perl_space r = (r = 9 \<or> r = 10 \<or> r = 12 \<or> r = 13 \<or> r = 32)"

datatype regex =
    EmptyMatch
  | Literal rune bool
  | CharClass "rune \<Rightarrow> bool"
  | WordBoundary
  | Concat regex regex
  | Alternate regex regex
  | Star regex
  | Capture regex

text \<open>
  The package finds the match a backtracking search would find first (leftmost-first, as
  in Perl): the first alternative that leads to a match wins, and a star takes as many
  repetitions as it can. \<open>backtrack r s i\<close> lists the positions where a match of \<open>r\<close>
  that starts at \<open>i\<close> can end, in the order the search tries them, so the head of the
  list is the end of the match that is returned. A repetition that consumes nothing is not
  iterated.
\<close>

function backtrack :: "regex \<Rightarrow> gostring \<Rightarrow> nat \<Rightarrow> nat list" where
  "backtrack EmptyMatch s i = [i]"
| "backtrack (Literal c f) s i =
     (if i < length s \<and> rune_matches f c (s ! i) then [Suc i] else [])"
| "backtrack (CharClass P) s i = (if i < length s \<and> P (s ! i) then [Suc i] else [])"
| "backtrack WordBoundary s i = (if is_word_boundary s i then [i] else [])"
| "backtrack (Concat a b) s i = concat (map (backtrack b s) (backtrack a s i))"
| "backtrack (Alternate a b) s i = backtrack a s i @ backtrack b s i"
| "backtrack (Capture a) s i = backtrack a s i"
| "backtrack (Star a) s i =
     concat (map (backtrack (Star a) s)
               (filter (\<lambda>j. i < j \<and> j \<le> length s) (backtrack a s i))) @ [i]"
  by pat_completeness auto
termination
  by (relation "inv_image (less_than <*lex*> less_than) (\<lambda>(r, s, i). (size r, length s - i))")
     auto

lemmas backtrack_Star = backtrack.simps(8)
declare backtrack.simps(8) [simp del]

text \<open>
  \<^verbatim>\<open>FindString\<close> returns the text of the leftmost match, and the empty string when there
  is no match. The search tries every start position from 0 to the length of the text.
\<close>

definition FindString :: "regex \<Rightarrow> gostring \<Rightarrow> gostring" where
  "FindString re s =
     (case List.find (\<lambda>i. backtrack re s i \<noteq> []) [0..<Suc (length s)] of
        None \<Rightarrow> []
      | Some i \<Rightarrow> take (hd (backtrack re s i) - i) (drop i s))"

text \<open>A literal string of the pattern is the concatenation of its runes.\<close>

fun literal :: "bool \<Rightarrow> gostring \<Rightarrow> regex" where
  "literal f [] = EmptyMatch"
| "literal f [c] = Literal c f"
| "literal f (c # cs) = Concat (Literal c f) (literal f cs)"

text \<open>
  The pattern compiled in ExtractQuery:
  \<^verbatim>\<open>(?i)\b(SELECT|INSERT|UPDATE|DELETE|WITH RECURSIVE)\b[\s\S]*\<close>
\<close>

definition sql_keywords :: "gostring list" where
  "sql_keywords =
     [runes ''SELECT'', runes ''INSERT'', runes ''UPDATE'', runes ''DELETE'',
      runes ''WITH RECURSIVE'']"

text \<open>
  The words of the specification, read plainly. A keyword occurs at a position of a message
  when the runes from there on spell it, each letter in upper or lower case, and it stands
  there as a whole word: the rune before it and the rune after it, where there is one, is
  no letter, digit or underscore. The letters are those of ASCII, of Latin-1 and of Latin
  Extended-A, which is all the examples below need. Whether the long s (U+017F) is a case
  of S is left to a flag, so that both readings can be tried. The first occurrence is the
  one at the least position.
\<close>

definition ascii_upper :: "rune \<Rightarrow> rune" where
  "ascii_upper r = (if 97 \<le> r \<and> r \<le> 122 then r - 32 else r)"

definition plain_letter :: "rune \<Rightarrow> bool" where
  "plain_letter r =
     ((65 \<le> r \<and> r \<le> 90) \<or> (97 \<le> r \<and> r \<le> 122) \<or>
      (192 \<le> r \<and> r \<le> 383 \<and> r \<noteq> 215 \<and> r \<noteq> 247))"

definition plain_word_char :: "rune \<Rightarrow> bool" where
  "plain_word_char r = (plain_letter r \<or> (48 \<le> r \<and> r \<le> 57) \<or> r = 95)"

definition plain_case :: "bool \<Rightarrow> rune \<Rightarrow> rune \<Rightarrow> bool" where
  "plain_case long_s c r =
     (ascii_upper r = ascii_upper c \<or> (long_s \<and> ascii_upper c = 83 \<and> r = 383))"

definition plain_keyword_here :: "bool \<Rightarrow> gostring \<Rightarrow> nat \<Rightarrow> gostring \<Rightarrow> bool" where
  "plain_keyword_here long_s s i k =
     (i + length k \<le> length s \<and>
      list_all (\<lambda>j. plain_case long_s (k ! j) (s ! (i + j))) [0..<length k] \<and>
      \<not> (0 < i \<and> plain_word_char (s ! (i - 1))) \<and>
      \<not> (i + length k < length s \<and> plain_word_char (s ! (i + length k))))"

definition plain_keyword_at :: "bool \<Rightarrow> gostring \<Rightarrow> nat \<Rightarrow> bool" where
  "plain_keyword_at long_s s i = list_ex (plain_keyword_here long_s s i) sql_keywords"

definition plain_first_keyword :: "bool \<Rightarrow> gostring \<Rightarrow> nat option" where
  "plain_first_keyword long_s s = List.find (plain_keyword_at long_s s) [0..<length s]"

text \<open>
  The words of the amended claims. A keyword is matched at a position of a message when
  \<^item> the runes from there on spell it, each letter in its upper or its lower ASCII case, an
    S also as the long s (U+017F);
  \<^item> the rune after it, if there is one, is no ASCII letter, digit or underscore;
  \<^item> the rune before it, if there is one, is none of these either; but when the keyword
    begins with the long s, there is a rune before it and it is one of these.
  The first match is the one at the least position.
\<close>

definition same_letter :: "rune \<Rightarrow> rune \<Rightarrow> bool" where
  "same_letter c r = (ascii_upper r = ascii_upper c \<or> (ascii_upper c = 83 \<and> r = 383))"

definition ascii_word_char :: "rune \<Rightarrow> bool" where
  "ascii_word_char r =
     (r \<in> set (runes ''0123456789_ABCDEFGHIJKLMNOPQRSTUVWXYZabcdefghijklmnopqrstuvwxyz''))"

definition spelled :: "gostring \<Rightarrow> gostring \<Rightarrow> nat \<Rightarrow> bool" where
  "spelled k s i =
     (i + length k \<le> length s \<and>
      list_all (\<lambda>j. same_letter (k ! j) (s ! (i + j))) [0..<length k])"

definition word_char_before :: "gostring \<Rightarrow> nat \<Rightarrow> bool" where
  "word_char_before s i = (0 < i \<and> ascii_word_char (s ! (i - 1)))"

definition word_char_at :: "gostring \<Rightarrow> nat \<Rightarrow> bool" where
  "word_char_at s i = (i < length s \<and> ascii_word_char (s ! i))"

definition keyword_matched_here :: "gostring \<Rightarrow> nat \<Rightarrow> gostring \<Rightarrow> bool" where
  "keyword_matched_here s i k =
     (spelled k s i \<and> \<not> word_char_at s (i + length k) \<and>
      (if s ! i = 383 then word_char_before s i else \<not> word_char_before s i))"

definition keyword_matched_at :: "gostring \<Rightarrow> nat \<Rightarrow> bool" where
  "keyword_matched_at s i = list_ex (keyword_matched_here s i) sql_keywords"

definition first_match :: "gostring \<Rightarrow> nat option" where
  "first_match s = List.find (keyword_matched_at s) [0..<length s]"

text \<open>
  Names for the proofs, in the matcher's own terms: \<open>spells f k s i\<close> says that the runes
  of \<open>s\<close> from \<open>i\<close> on match the literal \<open>k\<close>, \<open>accepts_here s i k\<close> that the pattern
  with the one keyword \<open>k\<close> matches at \<open>i\<close>, and \<open>rest\<close> is the end of the pattern,
  \<^verbatim>\<open>\b[\s\S]*\<close>.
\<close>

definition spells :: "bool \<Rightarrow> gostring \<Rightarrow> gostring \<Rightarrow> nat \<Rightarrow> bool" where
  "spells f k s i = list_all2 (rune_matches f) k (take (length k) (drop i s))"

definition accepts_here :: "gostring \<Rightarrow> nat \<Rightarrow> gostring \<Rightarrow> bool" where
  "accepts_here s i k =
     (is_word_boundary s i \<and> spells True k s i \<and> is_word_boundary s (i + length k))"

definition accepts_at :: "gostring \<Rightarrow> nat \<Rightarrow> bool" where
  "accepts_at s i = list_ex (accepts_here s i) sql_keywords"

definition first_accept :: "gostring \<Rightarrow> nat option" where
  "first_accept s = List.find (accepts_at s) [0..<length s]"

definition rest :: regex where
  "rest = Concat WordBoundary (Star (CharClass (\<lambda>r. perl_space r \<or> \<not> perl_space r)))"

definition re :: regex where
  "re =
     Concat WordBoundary
       (Concat
          (Capture
             (Alternate (literal True (runes ''SELECT''))
                (Alternate (literal True (runes ''INSERT''))
                   (Alternate (literal True (runes ''UPDATE''))
                      (Alternate (literal True (runes ''DELETE''))
                         (literal True (runes ''WITH RECURSIVE'')))))))
          (Concat WordBoundary
             (Star (CharClass (\<lambda>r. perl_space r \<or> \<not> perl_space r)))))"


section \<open>Errors and outcomes\<close>

text \<open>
  The Go errors the program can see: the \<^verbatim>\<open>*fs.PathError\<close> of \<^verbatim>\<open>os.ReadFile\<close> (with its
  path), the \<^verbatim>\<open>*json.SyntaxError\<close> and \<^verbatim>\<open>*json.UnmarshalTypeError\<close> (with the kind of the
  JSON value and the Go type it did not fit) of \<^verbatim>\<open>json.Unmarshal\<close>, and whatever
  \<^verbatim>\<open>database/sql\<close> and the driver report. A Go \<^verbatim>\<open>error\<close> value is an \<open>error option\<close>,
  \<open>None\<close> for \<^verbatim>\<open>nil\<close>. A call either returns or panics.
\<close>

datatype error =
    PathError gostring
  | SyntaxError
  | UnmarshalTypeError string string
  | DriverError string

datatype 'a outcome = Returns 'a | Panics


section \<open>The capture file and json.Unmarshal\<close>

text \<open>
  \<^verbatim>\<open>json.Unmarshal\<close> first checks that the bytes are one JSON text and returns a syntax
  error otherwise, before it decodes anything; then it walks the value. The contents of a
  file are therefore given by what the scanner makes of them: \<open>NotJSON\<close>, or the JSON
  value they denote, with string literals unescaped.
\<close>

datatype json =
    JNull
  | JBool bool
  | JNumber string
  | JString gostring
  | JArray "json list"
  | JObject "(gostring \<times> json) list"

datatype contents = NotJSON | Doc json

record payload =
  Message :: gostring

record LogEntry =
  JsonPayload :: payload

definition zero_payload :: payload where
  "zero_payload = \<lparr>Message = []\<rparr>"

definition zero_LogEntry :: LogEntry where
  "zero_LogEntry = \<lparr>JsonPayload = zero_payload\<rparr>"

fun json_kind :: "json \<Rightarrow> string" where
  "json_kind JNull = ''null''"
| "json_kind (JBool _) = ''bool''"
| "json_kind (JNumber _) = ''number''"
| "json_kind (JString _) = ''string''"
| "json_kind (JArray _) = ''array''"
| "json_kind (JObject _) = ''object''"

text \<open>
  A key of a JSON object is bound to the struct field whose name it equals, or equals up
  to letter case (the folding of \<^verbatim>\<open>bytes.EqualFold\<close>). Each struct here has one field, so
  the preference for the exact name decides nothing. A member with any other key is
  skipped.
\<close>

definition field_key :: "string \<Rightarrow> gostring \<Rightarrow> bool" where
  "field_key name key = list_all2 (rune_matches True) (runes name) key"

text \<open>
  A value that does not fit its target is skipped and decoding goes on; \<^verbatim>\<open>Unmarshal\<close>
  returns the earliest such error at the end. \<^verbatim>\<open>null\<close> leaves a string, a struct or a
  slice as it is, and a pointer \<^verbatim>\<open>nil\<close>.
\<close>

fun first_error :: "error option \<Rightarrow> error option \<Rightarrow> error option" where
  "first_error (Some e) _ = Some e"
| "first_error None e = e"

fun unmarshal_string :: "json \<Rightarrow> gostring \<Rightarrow> gostring \<times> error option" where
  "unmarshal_string JNull cur = (cur, None)"
| "unmarshal_string (JString s) cur = (s, None)"
| "unmarshal_string j cur = (cur, Some (UnmarshalTypeError (json_kind j) ''string''))"

fun payload_members :: "(gostring \<times> json) list \<Rightarrow> payload \<Rightarrow> payload \<times> error option" where
  "payload_members [] p = (p, None)"
| "payload_members ((k, v) # kvs) p =
     (if field_key ''message'' k then
        (case unmarshal_string v (Message p) of
           (m, e) \<Rightarrow>
             (case payload_members kvs (p\<lparr>Message := m\<rparr>) of
                (p', e') \<Rightarrow> (p', first_error e e')))
      else payload_members kvs p)"

fun unmarshal_payload :: "json \<Rightarrow> payload \<Rightarrow> payload \<times> error option" where
  "unmarshal_payload JNull cur = (cur, None)"
| "unmarshal_payload (JObject kvs) cur = payload_members kvs cur"
| "unmarshal_payload j cur = (cur, Some (UnmarshalTypeError (json_kind j) ''struct''))"

fun entry_members :: "(gostring \<times> json) list \<Rightarrow> LogEntry \<Rightarrow> LogEntry \<times> error option" where
  "entry_members [] l = (l, None)"
| "entry_members ((k, v) # kvs) l =
     (if field_key ''jsonPayload'' k then
        (case unmarshal_payload v (JsonPayload l) of
           (p, e) \<Rightarrow>
             (case entry_members kvs (l\<lparr>JsonPayload := p\<rparr>) of
                (l', e') \<Rightarrow> (l', first_error e e')))
      else entry_members kvs l)"

text \<open>
  An element of the slice is a \<^verbatim>\<open>*LogEntry\<close>, \<open>None\<close> for \<^verbatim>\<open>nil\<close>. For any JSON value
  but \<^verbatim>\<open>null\<close> the decoder allocates a zero \<^verbatim>\<open>LogEntry\<close> and decodes into it.
\<close>

fun unmarshal_entry :: "json \<Rightarrow> LogEntry option \<times> error option" where
  "unmarshal_entry JNull = (None, None)"
| "unmarshal_entry (JObject kvs) =
     (case entry_members kvs zero_LogEntry of (l, e) \<Rightarrow> (Some l, e))"
| "unmarshal_entry j = (Some zero_LogEntry, Some (UnmarshalTypeError (json_kind j) ''main.LogEntry''))"

fun unmarshal_elements :: "json list \<Rightarrow> LogEntry option list \<times> error option" where
  "unmarshal_elements [] = ([], None)"
| "unmarshal_elements (x # xs) =
     (case unmarshal_entry x of
        (l, e) \<Rightarrow>
          (case unmarshal_elements xs of
             (ls, e') \<Rightarrow> (l # ls, first_error e e')))"

text \<open>\<^verbatim>\<open>json.Unmarshal(data, &logs)\<close> with \<^verbatim>\<open>logs\<close> a nil \<^verbatim>\<open>[]*LogEntry\<close>.\<close>

fun Unmarshal :: "contents \<Rightarrow> LogEntry option list \<times> error option" where
  "Unmarshal NotJSON = ([], Some SyntaxError)"
| "Unmarshal (Doc JNull) = ([], None)"
| "Unmarshal (Doc (JArray xs)) = unmarshal_elements xs"
| "Unmarshal (Doc j) = ([], Some (UnmarshalTypeError (json_kind j) ''[]*main.LogEntry''))"

section \<open>ExtractQuery\<close>

text \<open>
  The loop over \<^verbatim>\<open>logs\<close> reads \<^verbatim>\<open>l.JsonPayload.Message\<close> through the pointer \<^verbatim>\<open>l\<close>; on a
  \<^verbatim>\<open>nil\<close> pointer this is a run-time panic. Each pointer was allocated for its own
  element, so the entries do not alias.
\<close>

fun extract_loop :: "regex \<Rightarrow> LogEntry option list \<Rightarrow> LogEntry option list outcome" where
  "extract_loop r [] = Returns []"
| "extract_loop r (None # ls) = Panics"
| "extract_loop r (Some l # ls) =
     (let sql = FindString r (Message (JsonPayload l));
          l' = l\<lparr>JsonPayload := (JsonPayload l)\<lparr>Message := sql\<rparr>\<rparr>
      in case extract_loop r ls of
           Panics \<Rightarrow> Panics
         | Returns ls' \<Rightarrow> Returns (Some l' # ls'))"

text \<open>
  \<^verbatim>\<open>os.ReadFile\<close> is the file system the program runs on: a parameter. The function
  returns the pair \<^verbatim>\<open>(logs, err)\<close>; a \<^verbatim>\<open>nil\<close> slice is the empty list.
\<close>

definition ExtractQuery ::
  "(gostring \<Rightarrow> error + contents) \<Rightarrow> gostring \<Rightarrow> (LogEntry option list \<times> error option) outcome"
where
  "ExtractQuery ReadFile filePath =
     (case ReadFile filePath of
        Inl err \<Rightarrow> Returns ([], Some err)
      | Inr data \<Rightarrow>
          (case Unmarshal data of
             (logs, Some err) \<Rightarrow> Returns ([], Some err)
           | (logs, None) \<Rightarrow>
               (case extract_loop re logs of
                  Panics \<Rightarrow> Panics
                | Returns logs' \<Rightarrow> Returns (logs', None))))"


text \<open>
  The words of the specification for a capture file: it is well-formed when its contents
  are an array of envelopes, each an object with a member \<^verbatim>\<open>jsonPayload\<close> that is an
  object with a member \<^verbatim>\<open>message\<close> that is a string.
\<close>

definition bound_members :: "string \<Rightarrow> (gostring \<times> json) list \<Rightarrow> json list" where
  "bound_members name kvs = map snd (filter (\<lambda>kv. field_key name (fst kv)) kvs)"

fun has_string_member :: "string \<Rightarrow> json \<Rightarrow> bool" where
  "has_string_member name (JObject kvs) =
     list_ex (\<lambda>kv. fst kv = runes name \<and> (case snd kv of JString _ \<Rightarrow> True | _ \<Rightarrow> False)) kvs"
| "has_string_member name _ = False"

fun has_message_string :: "json \<Rightarrow> bool" where
  "has_message_string (JObject kvs) =
     list_ex (\<lambda>kv. fst kv = runes ''jsonPayload'' \<and> has_string_member ''message'' (snd kv)) kvs"
| "has_message_string _ = False"

fun well_formed :: "contents \<Rightarrow> bool" where
  "well_formed (Doc (JArray xs)) = list_all has_message_string xs"
| "well_formed _ = False"

definition entry_of :: "gostring \<Rightarrow> LogEntry" where
  "entry_of m = \<lparr>JsonPayload = \<lparr>Message = m\<rparr>\<rparr>"

text \<open>
  The shapes the decoder takes without an error: \<^verbatim>\<open>null\<close> or an array at the top, each
  element \<^verbatim>\<open>null\<close> or an object, each member bound to \<^verbatim>\<open>jsonPayload\<close> \<^verbatim>\<open>null\<close> or an
  object, each member bound to \<^verbatim>\<open>message\<close> in it \<^verbatim>\<open>null\<close> or a string.
\<close>

fun string_fits :: "json \<Rightarrow> bool" where
  "string_fits JNull = True"
| "string_fits (JString _) = True"
| "string_fits _ = False"

fun payload_fits :: "json \<Rightarrow> bool" where
  "payload_fits JNull = True"
| "payload_fits (JObject kvs) = list_all string_fits (bound_members ''message'' kvs)"
| "payload_fits _ = False"

fun entry_fits :: "json \<Rightarrow> bool" where
  "entry_fits JNull = True"
| "entry_fits (JObject kvs) = list_all payload_fits (bound_members ''jsonPayload'' kvs)"
| "entry_fits _ = False"


text \<open>
  The amended words for a capture file. A member has a name, letter case ignored, when its
  key spells the name, each letter in its upper or lower ASCII case, an s also as the
  long s. An element fits when it is an object in which every member named
  \<^verbatim>\<open>jsonPayload\<close> is \<^verbatim>\<open>null\<close> or an object whose members named \<^verbatim>\<open>message\<close> are each \<^verbatim>\<open>null\<close>
  or a string. Its final message is the last string among these \<^verbatim>\<open>message\<close> members, in
  the order of the text, and the empty string when there is none.
\<close>

definition same_name :: "string \<Rightarrow> gostring \<Rightarrow> bool" where
  "same_name name key =
     (length key = length name \<and>
      list_all (\<lambda>j. same_letter (runes name ! j) (key ! j)) [0..<length name])"

definition members_named :: "string \<Rightarrow> (gostring \<times> json) list \<Rightarrow> json list" where
  "members_named name kvs = map snd (filter (\<lambda>kv. same_name name (fst kv)) kvs)"

fun string_or_null :: "json \<Rightarrow> bool" where
  "string_or_null JNull = True"
| "string_or_null (JString _) = True"
| "string_or_null _ = False"

fun payload_or_null :: "json \<Rightarrow> bool" where
  "payload_or_null JNull = True"
| "payload_or_null (JObject kvs) = list_all string_or_null (members_named ''message'' kvs)"
| "payload_or_null _ = False"

fun fitting_object :: "json \<Rightarrow> bool" where
  "fitting_object (JObject kvs) = list_all payload_or_null (members_named ''jsonPayload'' kvs)"
| "fitting_object _ = False"

fun strings_of :: "json list \<Rightarrow> gostring list" where
  "strings_of [] = []"
| "strings_of (JString m # vs) = m # strings_of vs"
| "strings_of (v # vs) = strings_of vs"

fun payload_strings :: "json \<Rightarrow> gostring list" where
  "payload_strings (JObject kvs) = strings_of (members_named ''message'' kvs)"
| "payload_strings _ = []"

fun final_message :: "json \<Rightarrow> gostring" where
  "final_message (JObject kvs) =
     last ([] # concat (map payload_strings (members_named ''jsonPayload'' kvs)))"
| "final_message _ = []"


section \<open>Connection\<close>

text \<open>
  The pool settings of a \<^verbatim>\<open>*sql.DB\<close>, and the setters of \<^verbatim>\<open>database/sql\<close>.
  \<open>maxIdleCount\<close> zero stands for the default of two idle connections and a negative
  value for none; \<open>maxOpen\<close> zero or less is no limit. Each setter keeps the idle limit
  at or below a positive open limit. A \<^verbatim>\<open>time.Duration\<close> is a number of nanoseconds.
\<close>

record DB =
  maxIdleCount :: int
  maxOpen :: int
  maxLifetime :: int
  maxIdleTime :: int

definition OpenDB :: DB where
  "OpenDB = \<lparr>maxIdleCount = 0, maxOpen = 0, maxLifetime = 0, maxIdleTime = 0\<rparr>"

definition maxIdleConnsLocked :: "DB \<Rightarrow> int" where
  "maxIdleConnsLocked c =
     (if maxIdleCount c = 0 then 2 else if maxIdleCount c < 0 then 0 else maxIdleCount c)"

definition SetMaxIdleConns :: "int \<Rightarrow> DB \<Rightarrow> DB" where
  "SetMaxIdleConns n c =
     (let c1 = (if 0 < n then c\<lparr>maxIdleCount := n\<rparr> else c\<lparr>maxIdleCount := - 1\<rparr>)
      in if 0 < maxOpen c1 \<and> maxOpen c1 < maxIdleConnsLocked c1
         then c1\<lparr>maxIdleCount := maxOpen c1\<rparr> else c1)"

definition SetMaxOpenConns :: "int \<Rightarrow> DB \<Rightarrow> DB" where
  "SetMaxOpenConns n c =
     (let c1 = c\<lparr>maxOpen := (if n < 0 then 0 else n)\<rparr>
      in if 0 < maxOpen c1 \<and> maxOpen c1 < maxIdleConnsLocked c1
         then SetMaxIdleConns n c1 else c1)"

definition SetConnMaxLifetime :: "int \<Rightarrow> DB \<Rightarrow> DB" where
  "SetConnMaxLifetime d c = c\<lparr>maxLifetime := (if d < 0 then 0 else d)\<rparr>"

definition SetConnMaxIdleTime :: "int \<Rightarrow> DB \<Rightarrow> DB" where
  "SetConnMaxIdleTime d c = c\<lparr>maxIdleTime := (if d < 0 then 0 else d)\<rparr>"

definition Second :: int where
  "Second = 1000000000"

text \<open>
  The argument \<^verbatim>\<open>0.1 * 80\<close> is an untyped constant expression: Go evaluates it exactly
  and converts it to \<^verbatim>\<open>int\<close>, which the compiler accepts only when the value is an
  integer.
\<close>

definition idle_fraction :: rat where
  "idle_fraction = 1 / 10 * 80"

text \<open>
  \<^verbatim>\<open>sql.Open\<close> fails when the driver is unknown or rejects the data source name; this is a
  parameter. It opens no connection.
\<close>

definition Connection :: "(string \<Rightarrow> gostring \<Rightarrow> error option) \<Rightarrow> gostring \<Rightarrow> error + DB" where
  "Connection sql_Open dsn =
     (case sql_Open ''postgres'' dsn of
        Some err \<Rightarrow> Inl err
      | None \<Rightarrow>
          Inr (SetMaxOpenConns 70
                (SetConnMaxIdleTime (15 * Second)
                  (SetConnMaxLifetime (30 * Second)
                    (SetMaxIdleConns \<lfloor>idle_fraction\<rfloor> OpenDB)))))"


section \<open>QueryConcurrency\<close>

record config =
  Host :: gostring
  Port :: gostring
  User :: gostring
  Password :: gostring
  DBName :: gostring
  SSLMode :: gostring
  EnvFile :: gostring
  SqlFile :: gostring

definition dsn_of :: "config \<Rightarrow> gostring" where
  "dsn_of c =
     runes ''host='' @ Host c @ runes '' port='' @ Port c @ runes '' user='' @ User c @
     runes '' dbname='' @ DBName c @ runes '' password='' @ Password c @
     runes '' sslmode='' @ SSLMode c"

text \<open>
  The function starts one goroutine per entry, and the goroutines share the counter, the
  mutex, the wait group, the error channel and the pool. Every access to shared state is
  ordered by the mutex, the channel or the wait group, so a run is an interleaving of
  atomic steps of the main goroutine and of the units, and the model is the step function
  of that interleaving: \<open>QueryConcurrency_step\<close> lets one goroutine take its next step,
  and is \<open>None\<close> when that goroutine is blocked or has finished. The call has returned
  when the main goroutine is at \<open>MReturned n err\<close>, with the two results.

  The database is a state machine taken as a parameter: \<open>Query d q\<close> is what
  \<^verbatim>\<open>conn.Query(q)\<close> does in the database state \<open>d\<close>: it returns rows, returns an error,
  or does not return.
\<close>

datatype query_result = Rows | Failed error | Hangs

text \<open>
  The places of a unit of work (the goroutine of lines 88 to 105), each named by the
  statement it is about to run. A unit keeps the value of its \<^verbatim>\<open>err\<close> when it is done.
\<close>

datatype unit_pc =
    UQuery gostring
  | UPrint gostring error
  | USend error
  | ULock
  | URead
  | UWrite int
  | UUnlock
  | UClose
  | UWgDone "error option"
  | UFinished "error option"
  | UHung

text \<open>The places of the main goroutine.\<close>

datatype main_pc =
    MFor nat
  | MGo nat
  | MWait
  | MClose
  | MLen
  | MRecv
  | MRet
  | MReturned int "error option"

datatype tid = Main | Unit nat

text \<open>
  The error channel is the list of the errors sent so far, in the order they were sent,
  with the number of those already received: its length in Go's sense is the difference.
  \<open>inUse\<close> counts the connections of the pool that are taken: a query takes one, gives
  it back at once when it fails, and otherwise holds it until \<^verbatim>\<open>rows.Close()\<close>.
  \<open>stdout\<close> has one item per diagnostic block, the statement and its error.
  \<open>m_owner\<close> is the mutex \<^verbatim>\<open>m\<close>: the unit that holds it. \<open>panicked\<close> is set when a
  goroutine panics, which ends the process.
\<close>

record 'db state =
  main :: main_pc
  units :: "unit_pc list"
  conn :: "DB option"
  numberSuccess :: int
  m_owner :: "nat option"
  wg :: int
  errChan :: "error list"
  errChan_cap :: nat
  errChan_received :: nat
  errChan_closed :: bool
  inUse :: nat
  stdout :: "(gostring \<times> error) list"
  db :: 'db
  panicked :: bool

definition pool_full :: "'db state \<Rightarrow> bool" where
  "pool_full s =
     (case conn s of
        None \<Rightarrow> False
      | Some c \<Rightarrow> 0 < maxOpen c \<and> maxOpen c \<le> int (inUse s))"

definition QueryConcurrency_init ::
  "(string \<Rightarrow> gostring \<Rightarrow> error option) \<Rightarrow> 'db \<Rightarrow> LogEntry option list \<Rightarrow> config option
     \<Rightarrow> 'db state"
where
  "QueryConcurrency_init sql_Open d logs dbConfig =
     (let s0 = \<lparr>main = MFor 0, units = [], conn = None, numberSuccess = 0, m_owner = None,
                 wg = 0, errChan = [], errChan_cap = 0, errChan_received = 0,
                 errChan_closed = False, inUse = 0, stdout = [], db = d, panicked = False\<rparr>
      in case dbConfig of
           None \<Rightarrow> s0\<lparr>panicked := True\<rparr>
         | Some c \<Rightarrow>
             (case Connection sql_Open (dsn_of c) of
                Inl err \<Rightarrow> s0\<lparr>main := MReturned 0 (Some err)\<rparr>
              | Inr cn \<Rightarrow> s0\<lparr>conn := Some cn, errChan_cap := length logs\<rparr>))"

text \<open>
  A step of the main goroutine: the loop (\<^verbatim>\<open>wg.Add(1)\<close>, then the \<^verbatim>\<open>go\<close> statement, which
  reads \<^verbatim>\<open>log.JsonPayload.Message\<close> through the pointer and panics on \<^verbatim>\<open>nil\<close>),
  \<^verbatim>\<open>wg.Wait()\<close>, \<^verbatim>\<open>close(errChan)\<close>, the test of \<^verbatim>\<open>len(errChan)\<close> and the two returns.
\<close>

definition main_step :: "LogEntry option list \<Rightarrow> 'db state \<Rightarrow> 'db state option" where
  "main_step logs s =
     (case main s of
        MFor k \<Rightarrow>
          (if k < length logs then Some (s\<lparr>wg := wg s + 1, main := MGo k\<rparr>)
           else Some (s\<lparr>main := MWait\<rparr>))
      | MGo k \<Rightarrow>
          (if k < length logs then
             (case logs ! k of
                None \<Rightarrow> Some (s\<lparr>panicked := True\<rparr>)
              | Some l \<Rightarrow>
                  Some (s\<lparr>units := units s @ [UQuery (Message (JsonPayload l))],
                          main := MFor (Suc k)\<rparr>))
           else None)
      | MWait \<Rightarrow> (if wg s = 0 then Some (s\<lparr>main := MClose\<rparr>) else None)
      | MClose \<Rightarrow> Some (s\<lparr>errChan_closed := True, main := MLen\<rparr>)
      | MLen \<Rightarrow>
          (if 0 < length (errChan s) - errChan_received s then Some (s\<lparr>main := MRecv\<rparr>)
           else Some (s\<lparr>main := MRet\<rparr>))
      | MRecv \<Rightarrow>
          (if errChan_received s < length (errChan s)
           then Some (s\<lparr>errChan_received := Suc (errChan_received s),
                        main := MReturned 0 (Some (errChan s ! errChan_received s))\<rparr>)
           else Some (s\<lparr>main := MReturned 0 None\<rparr>))
      | MRet \<Rightarrow> Some (s\<lparr>main := MReturned (numberSuccess s) None\<rparr>)
      | MReturned n e \<Rightarrow> None)"

text \<open>
  A step of unit \<open>i\<close>. \<^verbatim>\<open>conn.Query\<close> waits while the pool has no connection to give.
  The send blocks while the buffer is full and panics on a closed channel; \<^verbatim>\<open>m.Lock()\<close>
  blocks while the mutex is held; unlocking a free mutex and taking the wait group below
  zero end the process, as a panic does. The counter is read and written in two steps.
  The five print statements of a failing unit write one diagnostic block and no goroutine
  reads what is printed, so they are one step; the elapsed time in the block comes from
  the clock and is left out, as is \<^verbatim>\<open>time.Now()\<close>. The deferred calls run when the function
  body ends: \<^verbatim>\<open>rows.Close()\<close> on the successful path, then \<^verbatim>\<open>wg.Done()\<close>.
\<close>

definition unit_step ::
  "('db \<Rightarrow> gostring \<Rightarrow> query_result \<times> 'db) \<Rightarrow> nat \<Rightarrow> 'db state \<Rightarrow> 'db state option"
where
  "unit_step Query i s =
     (if length (units s) \<le> i then None else
      case units s ! i of
        UQuery q \<Rightarrow>
          (if pool_full s then None else
           case Query (db s) q of
             (Rows, d) \<Rightarrow>
               Some (s\<lparr>units := (units s)[i := ULock], inUse := Suc (inUse s), db := d\<rparr>)
           | (Failed e, d) \<Rightarrow> Some (s\<lparr>units := (units s)[i := UPrint q e], db := d\<rparr>)
           | (Hangs, d) \<Rightarrow>
               Some (s\<lparr>units := (units s)[i := UHung], inUse := Suc (inUse s), db := d\<rparr>))
      | UPrint q e \<Rightarrow>
          Some (s\<lparr>units := (units s)[i := USend e], stdout := stdout s @ [(q, e)]\<rparr>)
      | USend e \<Rightarrow>
          (if errChan_closed s then Some (s\<lparr>panicked := True\<rparr>)
           else if length (errChan s) - errChan_received s < errChan_cap s
           then Some (s\<lparr>units := (units s)[i := UWgDone (Some e)], errChan := errChan s @ [e]\<rparr>)
           else None)
      | ULock \<Rightarrow>
          (if m_owner s = None then Some (s\<lparr>units := (units s)[i := URead], m_owner := Some i\<rparr>)
           else None)
      | URead \<Rightarrow> Some (s\<lparr>units := (units s)[i := UWrite (numberSuccess s)]\<rparr>)
      | UWrite t \<Rightarrow> Some (s\<lparr>units := (units s)[i := UUnlock], numberSuccess := t + 1\<rparr>)
      | UUnlock \<Rightarrow>
          (if m_owner s = None then Some (s\<lparr>panicked := True\<rparr>)
           else Some (s\<lparr>units := (units s)[i := UClose], m_owner := None\<rparr>))
      | UClose \<Rightarrow> Some (s\<lparr>units := (units s)[i := UWgDone None], inUse := inUse s - 1\<rparr>)
      | UWgDone r \<Rightarrow>
          (if wg s \<le> 0 then Some (s\<lparr>panicked := True\<rparr>)
           else Some (s\<lparr>units := (units s)[i := UFinished r], wg := wg s - 1\<rparr>))
      | UFinished r \<Rightarrow> None
      | UHung \<Rightarrow> None)"

text \<open>After a panic the process is gone, and nothing steps.\<close>

definition QueryConcurrency_step ::
  "('db \<Rightarrow> gostring \<Rightarrow> query_result \<times> 'db) \<Rightarrow> LogEntry option list \<Rightarrow> tid \<Rightarrow> 'db state
     \<Rightarrow> 'db state option"
where
  "QueryConcurrency_step Query logs t s =
     (if panicked s then None else
      case t of Main \<Rightarrow> main_step logs s | Unit i \<Rightarrow> unit_step Query i s)"

text \<open>A run under a schedule: the goroutines step in the order the schedule names them.\<close>

fun run ::
  "('db \<Rightarrow> gostring \<Rightarrow> query_result \<times> 'db) \<Rightarrow> LogEntry option list \<Rightarrow> tid list \<Rightarrow> 'db state
     \<Rightarrow> 'db state option"
where
  "run Query logs [] s = Some s"
| "run Query logs (t # ts) s =
     (case QueryConcurrency_step Query logs t s of
        None \<Rightarrow> None
      | Some s' \<Rightarrow> run Query logs ts s')"


text \<open>
  What the proofs count. \<open>tally P us\<close> is the number of units at a place with \<open>P\<close>: a
  unit is \<open>finished\<close> after its \<^verbatim>\<open>wg.Done()\<close>, \<open>critical\<close> while it holds the mutex,
  \<open>counted\<close> once it has written the counter, \<open>has_sent\<close> once its error is in the
  channel, \<open>holding\<close> while it has a connection of the pool, and \<open>failed\<close> when its
  query has returned an error. \<open>potential\<close> bounds the steps a state has left.
\<close>

definition tally :: "('a \<Rightarrow> bool) \<Rightarrow> 'a list \<Rightarrow> int" where
  "tally P xs = int (length (filter P xs))"

fun finished :: "unit_pc \<Rightarrow> bool" where
  "finished (UFinished _) = True"
| "finished _ = False"

fun critical :: "unit_pc \<Rightarrow> bool" where
  "critical URead = True"
| "critical (UWrite _) = True"
| "critical UUnlock = True"
| "critical _ = False"

fun counted :: "unit_pc \<Rightarrow> bool" where
  "counted UUnlock = True"
| "counted UClose = True"
| "counted (UWgDone None) = True"
| "counted (UFinished None) = True"
| "counted _ = False"

fun has_sent :: "unit_pc \<Rightarrow> bool" where
  "has_sent (UWgDone (Some _)) = True"
| "has_sent (UFinished (Some _)) = True"
| "has_sent _ = False"

fun holding :: "unit_pc \<Rightarrow> bool" where
  "holding ULock = True"
| "holding URead = True"
| "holding (UWrite _) = True"
| "holding UUnlock = True"
| "holding UClose = True"
| "holding UHung = True"
| "holding _ = False"

fun failed :: "unit_pc \<Rightarrow> bool" where
  "failed (UPrint _ _) = True"
| "failed (USend _) = True"
| "failed (UWgDone (Some _)) = True"
| "failed (UFinished (Some _)) = True"
| "failed _ = False"

fun is_go :: "main_pc \<Rightarrow> bool" where
  "is_go (MGo _) = True"
| "is_go _ = False"

fun launching :: "main_pc \<Rightarrow> bool" where
  "launching (MFor _) = True"
| "launching (MGo _) = True"
| "launching MWait = True"
| "launching _ = False"

fun returned :: "main_pc \<Rightarrow> bool" where
  "returned (MReturned _ _) = True"
| "returned _ = False"

fun unit_rank :: "unit_pc \<Rightarrow> nat" where
  "unit_rank (UQuery _) = 7"
| "unit_rank ULock = 6"
| "unit_rank URead = 5"
| "unit_rank (UWrite _) = 4"
| "unit_rank UUnlock = 3"
| "unit_rank UClose = 2"
| "unit_rank (UWgDone _) = 1"
| "unit_rank (UFinished _) = 0"
| "unit_rank (UPrint _ _) = 3"
| "unit_rank (USend _) = 2"
| "unit_rank UHung = 0"

fun main_rank :: "nat \<Rightarrow> main_pc \<Rightarrow> nat" where
  "main_rank n (MFor k) = 9 * (n - k) + 5"
| "main_rank n (MGo k) = 9 * (n - k) + 4"
| "main_rank n MWait = 4"
| "main_rank n MClose = 3"
| "main_rank n MLen = 2"
| "main_rank n MRecv = 1"
| "main_rank n MRet = 1"
| "main_rank n (MReturned _ _) = 0"

definition potential :: "nat \<Rightarrow> 'db state \<Rightarrow> nat" where
  "potential n s =
     main_rank n (main s) + sum_list (map unit_rank (units s)) + (if panicked s then 0 else 1)"


text \<open>
  The invariants of a run over \<open>n\<close> entries, one for each piece of shared state: the units
  launched so far, the wait group, the mutex, the counter, the channel, its closing, the
  pool, and what the main goroutine is about to return.
\<close>

definition inv_launch :: "nat \<Rightarrow> 'db state \<Rightarrow> bool" where
  "inv_launch n s =
     (length (units s) \<le> n \<and>
      (case main s of
         MFor k \<Rightarrow> length (units s) = k
       | MGo k \<Rightarrow> length (units s) = k \<and> k < n
       | _ \<Rightarrow> length (units s) = n))"

definition inv_wg :: "'db state \<Rightarrow> bool" where
  "inv_wg s =
     (wg s = tally (\<lambda>u. \<not> finished u) (units s) + (if is_go (main s) then 1 else 0))"

definition mutex_ok :: "unit_pc list \<Rightarrow> nat option \<Rightarrow> bool" where
  "mutex_ok us owner =
     ((\<forall>i<length us. critical (us ! i) \<longrightarrow> owner = Some i) \<and>
      (\<forall>i. owner = Some i \<longrightarrow> i < length us \<and> critical (us ! i)))"

definition inv_mutex :: "'db state \<Rightarrow> bool" where
  "inv_mutex s = mutex_ok (units s) (m_owner s)"

definition writers_ok :: "unit_pc list \<Rightarrow> int \<Rightarrow> bool" where
  "writers_ok us c = (\<forall>i<length us. \<forall>t. us ! i = UWrite t \<longrightarrow> t = c)"

definition inv_counter :: "'db state \<Rightarrow> bool" where
  "inv_counter s =
     (tally counted (units s) = numberSuccess s \<and> writers_ok (units s) (numberSuccess s))"

definition inv_chan :: "nat \<Rightarrow> 'db state \<Rightarrow> bool" where
  "inv_chan n s =
     (int (length (errChan s)) = tally has_sent (units s) \<and> errChan_cap s = n \<and>
      (\<not> returned (main s) \<longrightarrow> errChan_received s = 0))"

definition inv_closed :: "'db state \<Rightarrow> bool" where
  "inv_closed s =
     ((errChan_closed s \<longrightarrow> wg s = 0 \<and> \<not> launching (main s)) \<and>
      (main s = MClose \<longrightarrow> wg s = 0) \<and>
      (\<not> launching (main s) \<and> main s \<noteq> MClose \<longrightarrow> errChan_closed s))"

definition inv_pool :: "'db state \<Rightarrow> bool" where
  "inv_pool s = (int (inUse s) = tally holding (units s))"

definition inv_result :: "nat \<Rightarrow> 'db state \<Rightarrow> bool" where
  "inv_result n s =
     ((main s = MRet \<longrightarrow> errChan s = []) \<and>
      (main s = MRecv \<longrightarrow> errChan s \<noteq> []) \<and>
      (\<forall>k e. main s = MReturned k e \<longrightarrow>
         (e = None \<and> k = int n \<and> errChan s = []) \<or>
         (k = 0 \<and> errChan s \<noteq> [] \<and> e = Some (hd (errChan s)))))"

text \<open>
  When every query returns rows, a unit is never at a place of the failing path, and the
  statement a unit is about to run is the statement of an entry.
\<close>

definition statements :: "LogEntry option list \<Rightarrow> gostring list" where
  "statements logs = map (\<lambda>l. Message (JsonPayload l)) (List.map_filter id logs)"

fun on_success_path :: "LogEntry option list \<Rightarrow> unit_pc \<Rightarrow> bool" where
  "on_success_path logs (UQuery q) = (q \<in> set (statements logs))"
| "on_success_path logs UHung = False"
| "on_success_path logs u = (\<not> failed u)"

definition invariant :: "nat \<Rightarrow> 'db state \<Rightarrow> bool" where
  "invariant n s =
     (inv_launch n s \<and> inv_wg s \<and> inv_mutex s \<and> inv_counter s \<and> inv_chan n s \<and>
      inv_closed s \<and> inv_pool s \<and> inv_result n s)"

text \<open>The places from which a unit can always take its step.\<close>

fun always_enabled :: "unit_pc \<Rightarrow> bool" where
  "always_enabled (UPrint _ _) = True"
| "always_enabled URead = True"
| "always_enabled (UWrite _) = True"
| "always_enabled UUnlock = True"
| "always_enabled UClose = True"
| "always_enabled (UWgDone _) = True"
| "always_enabled _ = False"

section \<open>A sample run\<close>

text \<open>
  A configuration, a driver that opens, a driver that does not, a database that counts
  the statements it is given and rejects the empty one, and two schedules for two entries:
  the first entry succeeds and the second, with no statement, fails.
\<close>

definition sample_config :: config where
  "sample_config =
     \<lparr>Host = runes ''localhost'', Port = runes ''5432'', User = runes ''app'',
      Password = runes ''secret'', DBName = runes ''shop'', SSLMode = runes ''disable'',
      EnvFile = [], SqlFile = runes ''capture.json''\<rparr>"

definition open_ok :: "string \<Rightarrow> gostring \<Rightarrow> error option" where
  "open_ok driver dsn = None"

definition open_fails :: "string \<Rightarrow> gostring \<Rightarrow> error option" where
  "open_fails driver dsn = Some (DriverError ''invalid connection string'')"

definition sample_Query :: "nat \<Rightarrow> gostring \<Rightarrow> query_result \<times> nat" where
  "sample_Query d q =
     (if q = [] then (Failed (DriverError ''empty query''), Suc d) else (Rows, Suc d))"

definition sample_logs :: "LogEntry option list" where
  "sample_logs = [Some (entry_of (runes ''select 1'')), Some (entry_of [])]"

definition sample_schedule :: "tid list" where
  "sample_schedule =
     [Main, Main, Unit 0, Main, Main, Main, Unit 1, Unit 0, Unit 1, Unit 0, Unit 0, Unit 1,
      Unit 0, Unit 0, Unit 1, Unit 0, Main, Main, Main, Main]"

definition good_logs :: "LogEntry option list" where
  "good_logs = [Some (entry_of (runes ''select 1'')), Some (entry_of (runes ''select 2''))]"

definition good_schedule :: "tid list" where
  "good_schedule =
     [Main, Main, Main, Main, Main, Unit 1, Unit 0, Unit 0, Unit 0, Unit 0, Unit 0, Unit 1,
      Unit 0, Unit 1, Unit 1, Unit 0, Unit 1, Unit 1, Unit 1, Main, Main, Main, Main]"

section \<open>Properties\<close>

subsection \<open>The matcher on the pattern of ExtractQuery\<close>

lemma spells_Cons:
  "spells f (c # cs) s i = (i < length s \<and> rune_matches f c (s ! i) \<and> spells f cs s (Suc i))"
proof (cases "i < length s")
  case True
  then have "drop i s = s ! i # drop (Suc i) s"
    by (simp add: Cons_nth_drop_Suc)
  then show ?thesis
    using True by (simp add: spells_def)
next
  case False
  then show ?thesis
    by (simp add: spells_def)
qed

lemma spells_Nil: "spells f [] s i"
  by (simp add: spells_def)

lemma backtrack_literal:
  "backtrack (literal f k) s i = (if spells f k s i then [i + length k] else [])"
proof (induction f k arbitrary: i rule: literal.induct)
  case (1 f)
  then show ?case by (simp add: spells_Nil)
next
  case (2 f c)
  then show ?case by (simp add: spells_Cons spells_Nil)
next
  case (3 f c d ds)
  show ?case
  proof (cases "i < length s \<and> rune_matches f c (s ! i)")
    case True
    then show ?thesis
      using "3.IH"[of "Suc i"] by (simp add: spells_Cons[of f c])
  next
    case False
    then show ?thesis
      by (auto simp add: spells_Cons[of f c])
  qed
qed

lemma backtrack_star_any:
  "i \<le> length s \<Longrightarrow> (\<And>r. P r) \<Longrightarrow> backtrack (Star (CharClass P)) s i = rev [i..<Suc (length s)]"
proof (induction "length s - i" arbitrary: i)
  case 0
  then show ?case by (simp add: backtrack_Star[of _ s i])
next
  case (Suc n)
  then have lt: "i < length s" by simp
  have "backtrack (Star (CharClass P)) s (Suc i) = rev [Suc i..<Suc (length s)]"
    using Suc by simp
  then show ?case
    using lt Suc.prems(2) by (simp add: backtrack_Star[of _ s i] upt_conv_Cons)
qed


lemma spells_le: "spells f k s i \<Longrightarrow> i \<le> length s \<Longrightarrow> i + length k \<le> length s"
proof -
  assume a: "spells f k s i" and b: "i \<le> length s"
  from a have "length k = length (take (length k) (drop i s))"
    unfolding spells_def by (rule list_all2_lengthD)
  then show ?thesis using b by simp
qed

lemma backtrack_keyword:
  assumes "i \<le> length s"
  shows "backtrack (Concat (literal True k) rest) s i =
   (if spells True k s i \<and> is_word_boundary s (i + length k) then rev [i + length k..<Suc (length s)] else [])"
proof (cases "spells True k s i")
  case True
  then have "i + length k \<le> length s" using assms by (rule spells_le)
  then show ?thesis
    using True by (simp add: rest_def backtrack_literal backtrack_star_any del: upt_Suc)
next
  case False
  then show ?thesis by (simp add: backtrack_literal)
qed

lemma backtrack_alt_then:
  "backtrack (Concat (Alternate a b) c) s i = backtrack (Concat a c) s i @ backtrack (Concat b c) s i"
  by simp

lemma backtrack_capture_then:
  "backtrack (Concat (Capture a) c) s i = backtrack (Concat a c) s i"
  by simp

lemma backtrack_boundary_then:
  "backtrack (Concat WordBoundary c) s i = (if is_word_boundary s i then backtrack c s i else [])"
  by simp

lemma accepts_here_spells:
  "accepts_here s i k = (is_word_boundary s i \<and> spells True k s i \<and> is_word_boundary s (i + length k))"
  by (simp add: accepts_here_def)

lemma backtrack_re:
  assumes "i \<le> length s"
  shows "backtrack re s i =
     concat (map (\<lambda>k. if accepts_here s i k then rev [i + length k..<Suc (length s)] else [])
               sql_keywords)"
proof -
  have "backtrack re s i = (if is_word_boundary s i then
          backtrack (Concat (literal True (runes ''SELECT'')) rest) s i @
          backtrack (Concat (literal True (runes ''INSERT'')) rest) s i @
          backtrack (Concat (literal True (runes ''UPDATE'')) rest) s i @
          backtrack (Concat (literal True (runes ''DELETE'')) rest) s i @
          backtrack (Concat (literal True (runes ''WITH RECURSIVE'')) rest) s i else [])"
    unfolding re_def rest_def[symmetric]
    by (simp only: backtrack_boundary_then backtrack_capture_then backtrack_alt_then)
  then show ?thesis
    by (simp only: backtrack_keyword[OF assms] accepts_here_spells sql_keywords_def)
       (simp del: upt_Suc)
qed


lemma hd_concat_same:
  assumes "\<And>xs. xs \<in> set xss \<Longrightarrow> xs = [] \<or> hd xs = l" and "concat xss \<noteq> []"
  shows "hd (concat xss) = l"
  using assms
proof (induction xss)
  case Nil
  then show ?case by simp
next
  case (Cons xs xss)
  show ?case
  proof (cases "xs = []")
    case True
    then show ?thesis using Cons by simp
  next
    case False
    then have "hd xs = l" using Cons.prems(1)[of xs] by simp
    then show ?thesis using False by simp
  qed
qed

lemma accepts_here_le:
  "accepts_here s i k \<Longrightarrow> i \<le> length s \<Longrightarrow> i + length k \<le> length s"
  using spells_le[of True k s i] by (simp add: accepts_here_spells)

lemma concat_guarded_empty:
  assumes "\<And>k. Q k \<Longrightarrow> f k \<noteq> []"
  shows "(concat (map (\<lambda>k. if Q k then f k else []) ks) = []) = (\<not> list_ex Q ks)"
  using assms by (induction ks) auto

lemma backtrack_re_empty:
  assumes "i \<le> length s"
  shows "(backtrack re s i = []) = (\<not> accepts_at s i)"
proof -
  have "\<And>k. accepts_here s i k \<Longrightarrow> rev [i + length k..<Suc (length s)] \<noteq> []"
    using accepts_here_le[OF _ assms] by fastforce
  then show ?thesis
    unfolding backtrack_re[OF assms] accepts_at_def
    by (rule concat_guarded_empty)
qed

lemma backtrack_re_hd:
  assumes "i \<le> length s" and "backtrack re s i \<noteq> []"
  shows "hd (backtrack re s i) = length s"
proof -
  let ?f = "\<lambda>k. if accepts_here s i k then rev [i + length k..<Suc (length s)] else []"
  have "hd (concat (map ?f sql_keywords)) = length s"
  proof (rule hd_concat_same)
    fix xs assume "xs \<in> set (map ?f sql_keywords)"
    then obtain k where k: "xs = ?f k" unfolding set_map by blast
    show "xs = [] \<or> hd xs = length s"
    proof (cases "accepts_here s i k")
      case True
      then have "i + length k \<le> length s" using assms(1) by (rule accepts_here_le)
      then show ?thesis using k True by (simp add: hd_rev)
    next
      case False
      then show ?thesis using k by simp
    qed
  next
    show "concat (map ?f sql_keywords) \<noteq> []"
      using assms(2) unfolding backtrack_re[OF assms(1)] .
  qed
  then show ?thesis unfolding backtrack_re[OF assms(1)] .
qed


lemma no_accepts_at_end: "\<not> accepts_at s (length s)"
  by (simp add: accepts_at_def sql_keywords_def accepts_here_def spells_def runes_def)

lemma find_snoc_False: "\<not> P y \<Longrightarrow> List.find P (xs @ [y]) = List.find P xs"
  by (induction xs) auto

lemma find_keyword:
  "List.find (\<lambda>i. backtrack re s i \<noteq> []) [0..<Suc (length s)] = first_accept s"
proof -
  have "List.find (\<lambda>i. backtrack re s i \<noteq> []) [0..<Suc (length s)]
        = List.find (accepts_at s) [0..<Suc (length s)]"
    by (rule find_cong) (simp_all add: backtrack_re_empty del: upt_Suc)
  also have "\<dots> = first_accept s"
    by (simp add: first_accept_def no_accepts_at_end find_snoc_False)
  finally show ?thesis .
qed

lemma first_accept_SomeD: "first_accept s = Some i \<Longrightarrow> i < length s \<and> accepts_at s i"
  by (auto simp: first_accept_def find_Some_iff)

lemma accepts_at_less: "accepts_at s i \<Longrightarrow> i < length s"
proof -
  assume k: "accepts_at s i"
  then obtain kw where kw: "kw \<in> set sql_keywords" and h: "accepts_here s i kw"
    by (auto simp: accepts_at_def list_ex_iff)
  from kw have "0 < length kw" by (auto simp: sql_keywords_def runes_def)
  moreover from h have "length kw = length (take (length kw) (drop i s))"
    unfolding accepts_here_def spells_def by (auto dest: list_all2_lengthD)
  then have "length kw \<le> length s - i" by simp
  ultimately show ?thesis by arith
qed

lemma first_accept_least:
  assumes "accepts_at s i" and "\<forall>j<i. \<not> accepts_at s j"
  shows "first_accept s = Some i"
proof -
  have i: "i < length s" using assms(1) by (rule accepts_at_less)
  then show ?thesis
    unfolding first_accept_def find_Some_iff using assms
    by (intro exI[of _ i]) simp
qed

lemma no_accept_iff: "(\<forall>i. \<not> accepts_at s i) = (first_accept s = None)"
  by (auto simp: first_accept_def find_None_iff dest: accepts_at_less)

lemma FindString_first_accept:
  "FindString re s = (case first_accept s of None \<Rightarrow> [] | Some i \<Rightarrow> drop i s)"
proof (cases "first_accept s")
  case None
  then show ?thesis unfolding FindString_def find_keyword by simp
next
  case (Some i)
  then have i: "i < length s" and k: "accepts_at s i"
    using first_accept_SomeD by auto
  have "backtrack re s i \<noteq> []" using i k by (simp add: backtrack_re_empty)
  then have "hd (backtrack re s i) = length s" using i by (simp add: backtrack_re_hd)
  then show ?thesis unfolding FindString_def find_keyword using Some by simp
qed

lemma is_word_rune_ascii: "is_word_rune r = ascii_word_char r"
  unfolding is_word_rune_def ascii_word_char_def runes_def
  by (simp) arith

lemma rune_matches_same_letter:
  "c \<noteq> 75 \<Longrightarrow> c \<noteq> 107 \<Longrightarrow> rune_matches True c r = same_letter c r"
  unfolding rune_matches_def fold_orbit_def same_letter_def ascii_upper_def
  by (simp) arith

lemma spells_spelled:
  assumes "\<forall>c\<in>set k. c \<noteq> 75 \<and> c \<noteq> 107" and "i \<le> length s"
  shows "spells True k s i = spelled k s i"
proof (cases "i + length k \<le> length s")
  case False
  then have "length k \<noteq> length (take (length k) (drop i s))" using assms(2) by simp
  then have "\<not> spells True k s i" unfolding spells_def by (auto dest: list_all2_lengthD)
  then show ?thesis using False by (simp add: spelled_def)
next
  case True
  have len: "length k = length (take (length k) (drop i s))" using True by simp
  have nth: "\<And>j. j < length k \<Longrightarrow> take (length k) (drop i s) ! j = s ! (i + j)"
    using True by simp
  have m: "\<And>j. j < length k \<Longrightarrow> rune_matches True (k ! j) (s ! (i + j)) = same_letter (k ! j) (s ! (i + j))"
    using assms(1) by (intro rune_matches_same_letter) (auto simp: all_set_conv_all_nth)
  have "spells True k s i = (\<forall>j<length k. rune_matches True (k ! j) (s ! (i + j)))"
    unfolding spells_def list_all2_conv_all_nth using len nth by auto
  also have "\<dots> = (\<forall>j<length k. same_letter (k ! j) (s ! (i + j)))"
    using m by auto
  also have "\<dots> = spelled k s i"
    using True by (auto simp: spelled_def list_all_iff)
  finally show ?thesis .
qed

lemma keyword_letters:
  assumes "k \<in> set sql_keywords"
  shows "(\<forall>c\<in>set k. c \<noteq> 75 \<and> c \<noteq> 107)" and "0 < length k"
    and "k ! 0 = 83 \<or> k ! 0 = 73 \<or> k ! 0 = 85 \<or> k ! 0 = 68 \<or> k ! 0 = 87"
    and "k ! (length k - 1) = 84 \<or> k ! (length k - 1) = 69"
  using assms by (auto simp: sql_keywords_def runes_def)

lemma first_letter_word:
  assumes "c = 83 \<or> c = 73 \<or> c = 85 \<or> c = 68 \<or> c = 87" and "same_letter c r"
  shows "is_word_rune r = (r \<noteq> 383)"
  using assms unfolding same_letter_def ascii_upper_def is_word_rune_def
  by (auto split: if_splits)

lemma last_letter_word:
  assumes "c = 84 \<or> c = 69" and "same_letter c r"
  shows "is_word_rune r"
  using assms unfolding same_letter_def ascii_upper_def is_word_rune_def
  by (auto split: if_splits)

lemma accepts_here_matched:
  assumes "k \<in> set sql_keywords" and "i \<le> length s"
  shows "accepts_here s i k = keyword_matched_here s i k"
proof (cases "spelled k s i")
  case False
  then show ?thesis
    using spells_spelled[OF keyword_letters(1)[OF assms(1)] assms(2)]
    by (simp add: accepts_here_def keyword_matched_here_def)
next
  case True
  note kl = keyword_letters[OF assms(1)]
  have le: "i + length k \<le> length s" using True by (simp add: spelled_def)
  have all: "\<And>j. j < length k \<Longrightarrow> same_letter (k ! j) (s ! (i + j))"
    using True by (simp add: spelled_def list_all_iff)
  have first: "is_word_rune (s ! i) = (s ! i \<noteq> 383)"
    using first_letter_word[OF kl(3)] all[of 0] kl(2) by simp
  have "same_letter (k ! (length k - 1)) (s ! (i + (length k - 1)))"
    using kl(2) by (intro all) simp
  then have "is_word_rune (s ! (i + (length k - 1)))"
    using last_letter_word[OF kl(4)] by blast
  moreover have "i + (length k - 1) = i + length k - 1" using kl(2) by arith
  ultimately have last: "is_word_rune (s ! (i + length k - 1))" by simp
  have i: "i < length s" using le kl(2) by arith
  have j: "0 < i + length k" using kl(2) by arith
  have b1: "is_word_boundary s i = (if s ! i = 383 then word_char_before s i else \<not> word_char_before s i)"
    using i first
    by (auto simp: is_word_boundary_def word_before_def word_after_def word_char_before_def
        is_word_rune_ascii)
  have b2: "is_word_boundary s (i + length k) = (\<not> word_char_at s (i + length k))"
    using le j last
    by (auto simp: is_word_boundary_def word_before_def word_after_def word_char_at_def
        is_word_rune_ascii)
  show ?thesis
    using True spells_spelled[OF kl(1) assms(2)] b1 b2
    by (auto simp: accepts_here_def keyword_matched_here_def)
qed

lemma accepts_at_matched:
  assumes "i \<le> length s"
  shows "accepts_at s i = keyword_matched_at s i"
  using accepts_here_matched[OF _ assms]
  by (auto simp: accepts_at_def keyword_matched_at_def list_ex_iff)

lemma first_accept_match: "first_accept s = first_match s"
  unfolding first_accept_def first_match_def
  by (rule find_cong) (simp_all add: accepts_at_matched)

lemma keyword_matched_at_less: "keyword_matched_at s i \<Longrightarrow> i < length s"
proof -
  assume "keyword_matched_at s i"
  then obtain k where k: "k \<in> set sql_keywords" and h: "keyword_matched_here s i k"
    by (auto simp: keyword_matched_at_def list_ex_iff)
  then have "i + length k \<le> length s" by (simp add: keyword_matched_here_def spelled_def)
  then show ?thesis using keyword_letters(2)[OF k] by arith
qed

lemma first_match_least:
  assumes "keyword_matched_at s i" and "\<forall>j<i. \<not> keyword_matched_at s j"
  shows "first_match s = Some i"
proof -
  have i: "i < length s" using assms(1) by (rule keyword_matched_at_less)
  then show ?thesis
    unfolding first_match_def find_Some_iff using assms
    by (intro exI[of _ i]) simp
qed

lemma no_match_iff: "(\<forall>i. \<not> keyword_matched_at s i) = (first_match s = None)"
  by (auto simp: first_match_def find_None_iff dest: keyword_matched_at_less)

lemma FindString_first_match:
  "FindString re s = (case first_match s of None \<Rightarrow> [] | Some i \<Rightarrow> drop i s)"
  by (simp add: FindString_first_accept first_accept_match)


subsection \<open>The statement taken from a message\<close>

text \<open>
  C3, as the specification has it, fails. In the message \<^verbatim>\<open>a?elect 1 select 2\<close>, where
  \<^verbatim>\<open>?\<close> stands for the long s, the first keyword that stands as a whole word is the
  \<^verbatim>\<open>select\<close> at position 10, whether or not the long s is read as a case of S: the one at
  position 1 is glued to the letter before it. The extraction starts at position 1.
\<close>

theorem first_whole_word_keyword_missed:
  "plain_first_keyword True ([97, 383] @ runes ''elect 1 select 2'') = Some 10 \<and>
   plain_first_keyword False ([97, 383] @ runes ''elect 1 select 2'') = Some 10 \<and>
   FindString re ([97, 383] @ runes ''elect 1 select 2'') = [383] @ runes ''elect 1 select 2'' \<and>
   FindString re ([97, 383] @ runes ''elect 1 select 2'')
     \<noteq> drop 10 ([97, 383] @ runes ''elect 1 select 2'')"
  by code_simp

text \<open>
  C3, amended. The extraction is the message from the first position where a keyword is
  matched to the end of the message, with no character changed. A keyword is matched at a
  position when the runes there spell SELECT, INSERT, UPDATE, DELETE or WITH RECURSIVE,
  each letter in its upper or lower ASCII case, an S also as the long s; the rune after it
  is no ASCII letter, digit or underscore; and the rune before it is none either, except
  that a keyword beginning with the long s follows such a rune.
\<close>

theorem extraction_from_first_match:
  assumes "keyword_matched_at s i" and "\<forall>j<i. \<not> keyword_matched_at s j"
  shows "FindString re s = drop i s"
  using first_match_least[OF assms] by (simp add: FindString_first_match)

theorem extraction_from_first_match_witness:
  "keyword_matched_at ([97, 383] @ runes ''elect 1 select 2'') 1 \<and>
   \<not> keyword_matched_at ([97, 383] @ runes ''elect 1 select 2'') 0 \<and>
   FindString re ([97, 383] @ runes ''elect 1 select 2'') = [383] @ runes ''elect 1 select 2'' \<and>
   keyword_matched_at (runes ''a Select 2'') 2 \<and>
   \<not> keyword_matched_at (runes ''a Select 2'') 0 \<and>
   \<not> keyword_matched_at (runes ''a Select 2'') 1 \<and>
   FindString re (runes ''a Select 2'') = runes ''Select 2''"
proof -
  let ?m = "[97, 383] @ runes ''elect 1 select 2''"
  have a: "keyword_matched_at ?m 1" by code_simp
  have a0: "\<not> keyword_matched_at ?m 0" by code_simp
  have ab: "\<forall>j<1. \<not> keyword_matched_at ?m j" using a0 by simp
  have ac: "drop 1 ?m = [383] @ runes ''elect 1 select 2''" by simp
  have b: "keyword_matched_at (runes ''a Select 2'') 2" by code_simp
  have b0: "\<not> keyword_matched_at (runes ''a Select 2'') 0" by code_simp
  have b1: "\<not> keyword_matched_at (runes ''a Select 2'') 1" by code_simp
  have bb: "\<forall>j<2. \<not> keyword_matched_at (runes ''a Select 2'') j"
  proof (intro allI impI)
    fix j :: nat assume "j < 2"
    then have "j = 0 \<or> j = 1" by auto
    then show "\<not> keyword_matched_at (runes ''a Select 2'') j" using b0 b1 by auto
  qed
  have bc: "drop 2 (runes ''a Select 2'') = runes ''Select 2''" by (simp add: runes_def)
  show ?thesis
    using a a0 b b0 b1 extraction_from_first_match[OF a ab] extraction_from_first_match[OF b bb]
      ac bc
    by simp
qed

text \<open>
  C5, as the specification has it, fails. In the message \<^verbatim>\<open>a?elect 1\<close>, where \<^verbatim>\<open>?\<close>
  stands for the long s, no keyword stands as a whole word, whether or not the long s is
  read as a case of S; the extracted statement is not empty.
\<close>

theorem glued_keyword_extracted:
  "plain_first_keyword True ([97, 383] @ runes ''elect 1'') = None \<and>
   plain_first_keyword False ([97, 383] @ runes ''elect 1'') = None \<and>
   FindString re ([97, 383] @ runes ''elect 1'') = [383] @ runes ''elect 1'' \<and>
   FindString re ([97, 383] @ runes ''elect 1'') \<noteq> []"
  by code_simp

text \<open>
  C5, amended. When no keyword is matched at any position of a message, in the sense of
  the amended C3, the extracted statement is the empty string, and the loop of
  ExtractQuery keeps the entry, with that empty statement.
\<close>

theorem extraction_without_match:
  assumes "\<forall>i. \<not> keyword_matched_at s i"
  shows "FindString re s = [] \<and>
         extract_loop re (Some (entry_of s) # ls) =
           (case extract_loop re ls of
              Panics \<Rightarrow> Panics
            | Returns ls' \<Rightarrow> Returns (Some (entry_of []) # ls'))"
proof -
  have "first_match s = None" using assms by (simp add: no_match_iff)
  then have "FindString re s = []" by (simp add: FindString_first_match)
  then show ?thesis by (simp add: entry_of_def split: outcome.splits)
qed

theorem extraction_without_match_witness:
  "(\<forall>i. \<not> keyword_matched_at (runes ''no sql here'') i) \<and>
   FindString re (runes ''no sql here'') = [] \<and>
   extract_loop re [Some (entry_of (runes ''no sql here''))] = Returns [Some (entry_of [])] \<and>
   (\<forall>i. \<not> keyword_matched_at ([383] @ runes ''elect 1'') i) \<and>
   FindString re ([383] @ runes ''elect 1'') = []"
proof -
  have "first_match (runes ''no sql here'') = None" by code_simp
  then have h: "\<forall>i. \<not> keyword_matched_at (runes ''no sql here'') i" by (simp add: no_match_iff)
  have "first_match ([383] @ runes ''elect 1'') = None" by code_simp
  then have g: "\<forall>i. \<not> keyword_matched_at ([383] @ runes ''elect 1'') i"
    by (simp add: no_match_iff)
  show ?thesis
    using h g extraction_without_match[OF h, of "[]"] extraction_without_match[OF g, of "[]"]
    by simp
qed

text \<open>
  A keyword in lower case counts like any other: a message that begins with the word
  \<^verbatim>\<open>update\<close> is extracted whole, also when the statement proper comes on its second line.
\<close>

lemma keyword_in_prose_is_taken:
  "FindString re (runes ''update failed\<newline>UPDATE t SET x=1 WHERE id=2'')
     = runes ''update failed\<newline>UPDATE t SET x=1 WHERE id=2''"
  by code_simp

subsection \<open>What json.Unmarshal accepts\<close>

lemma first_error_None [simp]: "(first_error a b = None) = (a = None \<and> b = None)"
  by (cases a) auto

lemma unmarshal_string_ok: "(snd (unmarshal_string v cur) = None) = string_fits v"
  by (cases v) auto

lemma payload_members_ok:
  "(snd (payload_members kvs p) = None) = list_all string_fits (bound_members ''message'' kvs)"
proof (induction kvs arbitrary: p)
  case Nil
  then show ?case by (simp add: bound_members_def)
next
  case (Cons kv kvs)
  obtain k v where kv: "kv = (k, v)" by (cases kv)
  show ?case
    using Cons[of p] Cons[of "p\<lparr>Message := fst (unmarshal_string v (Message p))\<rparr>"]
      unmarshal_string_ok[of v "Message p"]
    by (auto simp: kv bound_members_def split: prod.splits)
qed

lemma unmarshal_payload_ok: "(snd (unmarshal_payload v cur) = None) = payload_fits v"
  by (cases v) (auto simp: payload_members_ok)

lemma entry_members_ok:
  "(snd (entry_members kvs l) = None) = list_all payload_fits (bound_members ''jsonPayload'' kvs)"
proof (induction kvs arbitrary: l)
  case Nil
  then show ?case by (simp add: bound_members_def)
next
  case (Cons kv kvs)
  obtain k v where kv: "kv = (k, v)" by (cases kv)
  show ?case
    using Cons[of l] Cons[of "l\<lparr>JsonPayload := fst (unmarshal_payload v (JsonPayload l))\<rparr>"]
      unmarshal_payload_ok[of v "JsonPayload l"]
    by (auto simp: kv bound_members_def split: prod.splits)
qed

lemma unmarshal_entry_ok: "(snd (unmarshal_entry v) = None) = entry_fits v"
  by (cases v) (simp_all add: entry_members_ok split_beta)

lemma unmarshal_elements_ok: "(snd (unmarshal_elements xs) = None) = list_all entry_fits xs"
  by (induction xs) (simp_all add: unmarshal_entry_ok split_beta)



lemma bound_members_Cons:
  "bound_members name ((k, v) # kvs) =
     (if field_key name k then v # bound_members name kvs else bound_members name kvs)"
  by (simp add: bound_members_def)

lemma bound_members_Nil: "bound_members name [] = []"
  by (simp add: bound_members_def)

lemma payload_members_fit:
  "list_all string_fits (bound_members ''message'' kvs) \<Longrightarrow>
   payload_members kvs p =
     (p\<lparr>Message := last (Message p # strings_of (bound_members ''message'' kvs))\<rparr>, None)"
proof (induction kvs arbitrary: p)
  case Nil
  then show ?case by (simp add: bound_members_Nil)
next
  case (Cons kv kvs)
  obtain k v where kv: "kv = (k, v)" by (cases kv)
  show ?case
  proof (cases "field_key ''message'' k")
    case False
    then show ?thesis using Cons by (simp add: kv bound_members_Cons)
  next
    case True
    then have f: "string_fits v" and r: "list_all string_fits (bound_members ''message'' kvs)"
      using Cons.prems by (simp_all add: kv bound_members_Cons)
    show ?thesis
    proof (cases v)
      case JNull
      then show ?thesis using True Cons.IH[OF r, of p] by (simp add: kv bound_members_Cons)
    next
      case (JString m)
      then show ?thesis
        using True Cons.IH[OF r, of "p\<lparr>Message := m\<rparr>"] by (simp add: kv bound_members_Cons)
    qed (use f in simp_all)
  qed
qed

lemma field_key_same_name:
  assumes "\<forall>c\<in>set (runes name). c \<noteq> 75 \<and> c \<noteq> 107"
  shows "field_key name key = same_name name key"
proof -
  have "length (runes name) = length name" by (simp add: runes_def)
  moreover have "\<And>j. j < length name \<Longrightarrow>
      rune_matches True (runes name ! j) (key ! j) = same_letter (runes name ! j) (key ! j)"
  proof -
    fix j assume "j < length name"
    then have "runes name ! j \<in> set (runes name)" by (simp add: runes_def)
    then show "rune_matches True (runes name ! j) (key ! j) = same_letter (runes name ! j) (key ! j)"
      using assms by (simp add: rune_matches_same_letter)
  qed
  ultimately show ?thesis
    unfolding field_key_def same_name_def list_all2_conv_all_nth list_all_iff
    by auto
qed

lemma members_named_message: "members_named ''message'' kvs = bound_members ''message'' kvs"
proof -
  have "\<forall>c\<in>set (runes ''message''). c \<noteq> 75 \<and> c \<noteq> 107" by (simp add: runes_def)
  then show ?thesis
    by (simp add: members_named_def bound_members_def field_key_same_name)
qed

lemma members_named_jsonPayload:
  "members_named ''jsonPayload'' kvs = bound_members ''jsonPayload'' kvs"
proof -
  have "\<forall>c\<in>set (runes ''jsonPayload''). c \<noteq> 75 \<and> c \<noteq> 107" by (simp add: runes_def)
  then show ?thesis
    by (simp add: members_named_def bound_members_def field_key_same_name)
qed

lemma string_or_null_fits: "string_or_null = string_fits"
proof
  fix v show "string_or_null v = string_fits v" by (cases v) simp_all
qed

lemma payload_or_null_fits: "payload_or_null = payload_fits"
proof
  fix v show "payload_or_null v = payload_fits v"
    by (cases v) (simp_all add: members_named_message string_or_null_fits)
qed

lemma unmarshal_payload_fit:
  "payload_fits v \<Longrightarrow>
   unmarshal_payload v p = (p\<lparr>Message := last (Message p # payload_strings v)\<rparr>, None)"
  by (cases v) (simp_all add: payload_members_fit members_named_message)

lemma entry_members_fit:
  "list_all payload_fits (bound_members ''jsonPayload'' kvs) \<Longrightarrow>
   entry_members kvs l =
     (l\<lparr>JsonPayload := (JsonPayload l)\<lparr>Message :=
          last (Message (JsonPayload l)
                # concat (map payload_strings (bound_members ''jsonPayload'' kvs)))\<rparr>\<rparr>, None)"
proof (induction kvs arbitrary: l)
  case Nil
  then show ?case by (simp add: bound_members_Nil)
next
  case (Cons kv kvs)
  obtain k v where kv: "kv = (k, v)" by (cases kv)
  show ?case
  proof (cases "field_key ''jsonPayload'' k")
    case False
    then show ?thesis using Cons by (simp add: kv bound_members_Cons)
  next
    case True
    then have f: "payload_fits v"
      and r: "list_all payload_fits (bound_members ''jsonPayload'' kvs)"
      using Cons.prems by (simp_all add: kv bound_members_Cons)
    let ?p = "(JsonPayload l)\<lparr>Message := last (Message (JsonPayload l) # payload_strings v)\<rparr>"
    have "entry_members (kv # kvs) l = entry_members kvs (l\<lparr>JsonPayload := ?p\<rparr>)"
      using True by (simp add: kv unmarshal_payload_fit[OF f] Cons.IH[OF r])
    also have "\<dots> = (l\<lparr>JsonPayload := (JsonPayload l)\<lparr>Message :=
          last (Message (JsonPayload l)
                # concat (map payload_strings (bound_members ''jsonPayload'' (kv # kvs))))\<rparr>\<rparr>, None)"
      using True by (simp add: Cons.IH[OF r] kv bound_members_Cons)
    finally show ?thesis .
  qed
qed

lemma unmarshal_fitting:
  assumes "fitting_object x"
  shows "unmarshal_entry x = (Some (entry_of (final_message x)), None)"
proof (cases x)
  case (JObject kvs)
  then show ?thesis
    using assms
    by (simp add: entry_members_fit members_named_jsonPayload payload_or_null_fits
        zero_LogEntry_def zero_payload_def entry_of_def)
qed (use assms in simp_all)

lemma unmarshal_all_fitting:
  "list_all fitting_object xs \<Longrightarrow>
   unmarshal_elements xs = (map (\<lambda>x. Some (entry_of (final_message x))) xs, None)"
  by (induction xs) (simp_all add: unmarshal_fitting)

lemma extract_loop_entries:
  "extract_loop r (map (\<lambda>x. Some (entry_of (f x))) xs) =
   Returns (map (\<lambda>x. Some (entry_of (FindString r (f x)))) xs)"
  by (induction xs) (simp_all add: entry_of_def)

lemma extract_loop_nil: "None \<in> set ls \<Longrightarrow> extract_loop r ls = Panics"
proof (induction ls)
  case Nil
  then show ?case by simp
next
  case (Cons l ls)
  then show ?case by (cases l) auto
qed

lemma unmarshal_elements_null:
  "JNull \<in> set xs \<Longrightarrow> None \<in> set (fst (unmarshal_elements xs))"
  by (induction xs) (auto simp: split_beta)










subsection \<open>ExtractQuery\<close>

text \<open>
  C4, as the specification has it, fails. The decoder binds a member to a field also when
  its name differs from the field's in letter case only. The file whose one envelope has
  a \<^verbatim>\<open>jsonPayload.message\<close> string and also a member \<^verbatim>\<open>JSONPAYLOAD\<close> that is a number is
  well-formed, and ExtractQuery returns a decode error and no entry.
\<close>

theorem case_variant_member_rejected:
  "well_formed (Doc (JArray
      [JObject [(runes ''jsonPayload'', JObject [(runes ''message'', JString (runes ''select 1''))]),
                (runes ''JSONPAYLOAD'', JNumber ''7'')]])) \<and>
   ExtractQuery
     (\<lambda>p. Inr (Doc (JArray
        [JObject [(runes ''jsonPayload'', JObject [(runes ''message'', JString (runes ''select 1''))]),
                  (runes ''JSONPAYLOAD'', JNumber ''7'')]])))
     (runes ''capture.json'')
   = Returns ([], Some (UnmarshalTypeError ''number'' ''struct''))"
  by code_simp

text \<open>
  C4, amended. For every capture file whose contents are an array of objects that fit, so
  that in each element every member named \<^verbatim>\<open>jsonPayload\<close>, letter case ignored and an s
  also as the long s, is an object or \<^verbatim>\<open>null\<close>, and every member so named \<^verbatim>\<open>message\<close> in one
  is a string or \<^verbatim>\<open>null\<close>, ExtractQuery returns one entry for each element of the array, in
  the order of the array: the entry of an element holds the statement extracted from the
  final message of that element.
\<close>

theorem one_entry_per_fitting_element:
  assumes "ReadFile filePath = Inr (Doc (JArray xs))"
    and "list_all fitting_object xs"
  shows "ExtractQuery ReadFile filePath =
           Returns (map (\<lambda>x. Some (entry_of (FindString re (final_message x)))) xs, None)"
  using assms by (simp add: ExtractQuery_def unmarshal_all_fitting extract_loop_entries)

theorem one_entry_per_fitting_element_witness:
  "ExtractQuery
     (\<lambda>p. Inr (Doc (JArray
        [JObject [(runes ''jsonPayload'', JObject [(runes ''message'', JString (runes ''x DELETE y''))])],
         JObject [(runes ''insertId'', JNumber ''7''),
                  (runes ''jsonPayload'', JObject [(runes ''message'', JString (runes ''no sql here''))])],
         JObject [(runes ''jsonPayload'', JObject [(runes ''message'', JString (runes ''select 1''))]),
                  (runes ''JSONPAYLOAD'', JObject [(runes ''message'', JString (runes ''select 2''))])]])))
     (runes ''capture.json'')
   = Returns ([Some (entry_of (runes ''DELETE y'')), Some (entry_of []),
               Some (entry_of (runes ''select 2''))], None)"
proof -
  let ?xs = "[JObject [(runes ''jsonPayload'', JObject [(runes ''message'', JString (runes ''x DELETE y''))])],
         JObject [(runes ''insertId'', JNumber ''7''),
                  (runes ''jsonPayload'', JObject [(runes ''message'', JString (runes ''no sql here''))])],
         JObject [(runes ''jsonPayload'', JObject [(runes ''message'', JString (runes ''select 1''))]),
                  (runes ''JSONPAYLOAD'', JObject [(runes ''message'', JString (runes ''select 2''))])]]"
  let ?fs = "\<lambda>p :: gostring. (Inr (Doc (JArray ?xs)) :: error + contents)"
  have a: "?fs (runes ''capture.json'') = Inr (Doc (JArray ?xs))" by simp
  have b: "list_all fitting_object ?xs" by code_simp
  have c: "map (\<lambda>x. Some (entry_of (FindString re (final_message x)))) ?xs =
           [Some (entry_of (runes ''DELETE y'')), Some (entry_of []),
            Some (entry_of (runes ''select 2''))]" by code_simp
  show ?thesis using one_entry_per_fitting_element[of ?fs, OF a b] c by simp
qed

text \<open>
  A well-formed element fits unless a member of one of the two names, in some letter case,
  has another type: it fits as soon as the decoder takes it.
\<close>

lemma well_formed_fits:
  "has_message_string x \<Longrightarrow> entry_fits x \<Longrightarrow> fitting_object x"
  by (cases x) (simp_all add: members_named_jsonPayload payload_or_null_fits)




text \<open>
  C10. There are capture files that are valid JSON and that ExtractQuery neither rejects
  with a decode error nor answers with entries: when the contents are an array the decoder
  accepts and one element is \<^verbatim>\<open>null\<close>, the entry of that element is a \<^verbatim>\<open>nil\<close> pointer and
  the loop panics on it.
\<close>

theorem null_element_panics:
  assumes "ReadFile filePath = Inr (Doc (JArray xs))"
    and "list_all entry_fits xs" and "JNull \<in> set xs"
  shows "ExtractQuery ReadFile filePath = Panics"
proof -
  obtain ls e where u: "unmarshal_elements xs = (ls, e)" by (cases "unmarshal_elements xs")
  have "e = None" using assms(2) unmarshal_elements_ok[of xs] u by simp
  moreover have "None \<in> set ls" using unmarshal_elements_null[OF assms(3)] u by simp
  ultimately show ?thesis
    using assms(1) u by (simp add: ExtractQuery_def extract_loop_nil)
qed

theorem null_element_panics_witness:
  "ExtractQuery
     (\<lambda>p. Inr (Doc (JArray
        [JObject [(runes ''jsonPayload'', JObject [(runes ''message'', JString (runes ''select 1''))])],
         JNull])))
     (runes ''capture.json'') = Panics"
proof -
  let ?xs = "[JObject [(runes ''jsonPayload'', JObject [(runes ''message'', JString (runes ''select 1''))])],
         JNull]"
  let ?fs = "\<lambda>p :: gostring. (Inr (Doc (JArray ?xs)) :: error + contents)"
  have a: "?fs (runes ''capture.json'') = Inr (Doc (JArray ?xs))" by simp
  have b: "list_all entry_fits ?xs" by code_simp
  have c: "JNull \<in> set ?xs" by simp
  show ?thesis using null_element_panics[of ?fs, OF a b c] by simp
qed


subsection \<open>Connection\<close>

lemma sample_connection:
  "\<exists>cn. Connection open_ok (dsn_of sample_config) = Inr cn"
  by (simp add: Connection_def open_ok_def)

text \<open>
  C8. The pool that Connection returns has at most 70 open connections and at most 8 idle
  ones, so the idle limit is at most the open limit; the 8 is the exact value of the
  constant expression \<^verbatim>\<open>0.1 * 80\<close>. The two lifetimes are 30 and 15 seconds.
\<close>

theorem pool_parameters:
  assumes "Connection sql_Open dsn = Inr cn"
  shows "maxOpen cn = 70 \<and> maxIdleConnsLocked cn = 8 \<and> maxIdleConnsLocked cn \<le> maxOpen cn \<and>
         of_int (maxIdleConnsLocked cn) = idle_fraction \<and>
         maxLifetime cn = 30 * Second \<and> maxIdleTime cn = 15 * Second"
  using assms
  by (auto simp: Connection_def idle_fraction_def SetMaxOpenConns_def SetMaxIdleConns_def
      SetConnMaxLifetime_def SetConnMaxIdleTime_def OpenDB_def maxIdleConnsLocked_def Second_def
      Let_def split: option.splits)

theorem pool_parameters_witness:
  "maxOpen (projr (Connection open_ok (dsn_of sample_config))) = 70 \<and>
   maxIdleConnsLocked (projr (Connection open_ok (dsn_of sample_config))) = 8"
proof -
  obtain cn where c: "Connection open_ok (dsn_of sample_config) = Inr cn"
    using sample_connection by blast
  show ?thesis using pool_parameters[OF c] c by simp
qed

subsection \<open>Counting units, and the cases of a step\<close>

lemma tally_Nil [simp]: "tally P [] = 0"
  by (simp add: tally_def)

lemma tally_Cons [simp]: "tally P (x # xs) = (if P x then 1 else 0) + tally P xs"
  by (simp add: tally_def)

lemma tally_snoc [simp]: "tally P (xs @ [y]) = tally P xs + (if P y then 1 else 0)"
  by (simp add: tally_def)

lemma tally_update:
  "i < length xs \<Longrightarrow>
   tally P (xs[i := y]) = tally P xs - (if P (xs ! i) then 1 else 0) + (if P y then 1 else 0)"
proof (induction xs arbitrary: i)
  case Nil
  then show ?case by simp
next
  case (Cons x xs)
  then show ?case by (cases i) auto
qed

lemma tally_nonneg: "0 \<le> tally P xs"
  by (simp add: tally_def)

lemma tally_le: "tally P xs \<le> int (length xs)"
  by (simp add: tally_def)

lemma tally_pos: "i < length xs \<Longrightarrow> P (xs ! i) \<Longrightarrow> 0 < tally P xs"
proof -
  assume "i < length xs" and "P (xs ! i)"
  then have "filter P xs \<noteq> []" by (auto simp: filter_empty_conv)
  then show ?thesis by (simp add: tally_def)
qed

lemma tally_ex: "0 < tally P xs \<Longrightarrow> \<exists>i<length xs. P (xs ! i)"
proof -
  assume "0 < tally P xs"
  then have "filter P xs \<noteq> []" by (auto simp: tally_def)
  then obtain x where "x \<in> set xs" and "P x"
    by (metis filter_False)
  then show ?thesis by (auto simp: in_set_conv_nth)
qed

lemma tally_zero: "tally P xs = 0 \<Longrightarrow> i < length xs \<Longrightarrow> \<not> P (xs ! i)"
  using tally_pos[of i xs P] by auto

lemma tally_all: "(\<And>i. i < length xs \<Longrightarrow> P (xs ! i)) \<Longrightarrow> tally P xs = int (length xs)"
proof -
  assume "\<And>i. i < length xs \<Longrightarrow> P (xs ! i)"
  then have "\<forall>x\<in>set xs. P x" by (auto simp: in_set_conv_nth)
  then show ?thesis by (simp add: tally_def)
qed

lemma main_stepE [consumes 1, case_names For_go For_exit Go_nil Go Wait Close Len_some Len_none
    Recv Recv_empty Ret]:
  assumes "main_step logs s = Some s'"
  obtains
    k where "main s = MFor k" "k < length logs" "s' = s\<lparr>wg := wg s + 1, main := MGo k\<rparr>"
  | k where "main s = MFor k" "\<not> k < length logs" "s' = s\<lparr>main := MWait\<rparr>"
  | k where "main s = MGo k" "k < length logs" "logs ! k = None" "s' = s\<lparr>panicked := True\<rparr>"
  | k l where "main s = MGo k" "k < length logs" "logs ! k = Some l"
      "s' = s\<lparr>units := units s @ [UQuery (Message (JsonPayload l))], main := MFor (Suc k)\<rparr>"
  | "main s = MWait" "wg s = 0" "s' = s\<lparr>main := MClose\<rparr>"
  | "main s = MClose" "s' = s\<lparr>errChan_closed := True, main := MLen\<rparr>"
  | "main s = MLen" "0 < length (errChan s) - errChan_received s" "s' = s\<lparr>main := MRecv\<rparr>"
  | "main s = MLen" "\<not> 0 < length (errChan s) - errChan_received s" "s' = s\<lparr>main := MRet\<rparr>"
  | "main s = MRecv" "errChan_received s < length (errChan s)"
      "s' = s\<lparr>errChan_received := Suc (errChan_received s),
              main := MReturned 0 (Some (errChan s ! errChan_received s))\<rparr>"
  | "main s = MRecv" "\<not> errChan_received s < length (errChan s)"
      "s' = s\<lparr>main := MReturned 0 None\<rparr>"
  | "main s = MRet" "s' = s\<lparr>main := MReturned (numberSuccess s) None\<rparr>"
proof -
  note step = assms[unfolded main_step_def]
  show ?thesis
  proof (cases "main s")
    case (MFor k)
    show ?thesis
    proof (cases "k < length logs")
      case True
      have "s' = s\<lparr>wg := wg s + 1, main := MGo k\<rparr>" using step MFor True by simp
      then show ?thesis using MFor True by (intro that(1)) auto
    next
      case False
      have "s' = s\<lparr>main := MWait\<rparr>" using step MFor False by simp
      then show ?thesis using MFor False by (intro that(2)) auto
    qed
  next
    case (MGo k)
    have k: "k < length logs" using step MGo by (simp split: if_splits)
    show ?thesis
    proof (cases "logs ! k")
      case None
      have "s' = s\<lparr>panicked := True\<rparr>" using step MGo k None by simp
      then show ?thesis using MGo k None by (intro that(3)) auto
    next
      case (Some l)
      have "s' = s\<lparr>units := units s @ [UQuery (Message (JsonPayload l))], main := MFor (Suc k)\<rparr>"
        using step MGo k Some by simp
      then show ?thesis using MGo k Some by (intro that(4)) auto
    qed
  next
    case MWait
    have "wg s = 0 \<and> s' = s\<lparr>main := MClose\<rparr>" using step MWait by (simp split: if_splits)
    then show ?thesis using MWait by (intro that(5)) auto
  next
    case MClose
    have "s' = s\<lparr>errChan_closed := True, main := MLen\<rparr>" using step MClose by simp
    then show ?thesis using MClose by (intro that(6)) auto
  next
    case MLen
    show ?thesis
    proof (cases "0 < length (errChan s) - errChan_received s")
      case True
      have "s' = s\<lparr>main := MRecv\<rparr>" using step MLen True by simp
      then show ?thesis using MLen True by (intro that(7)) auto
    next
      case False
      have "s' = s\<lparr>main := MRet\<rparr>" using step MLen False by simp
      then show ?thesis using MLen False by (intro that(8)) auto
    qed
  next
    case MRecv
    show ?thesis
    proof (cases "errChan_received s < length (errChan s)")
      case True
      have "s' = s\<lparr>errChan_received := Suc (errChan_received s),
              main := MReturned 0 (Some (errChan s ! errChan_received s))\<rparr>"
        using step MRecv True by simp
      then show ?thesis using MRecv True by (intro that(9)) auto
    next
      case False
      have "s' = s\<lparr>main := MReturned 0 None\<rparr>" using step MRecv False by simp
      then show ?thesis using MRecv False by (intro that(10)) auto
    qed
  next
    case MRet
    have "s' = s\<lparr>main := MReturned (numberSuccess s) None\<rparr>" using step MRet by simp
    then show ?thesis using MRet by (intro that(11)) auto
  next
    case (MReturned n e)
    then show ?thesis using step by simp
  qed
qed

lemma unit_stepE [consumes 1, case_names Query_rows Query_failed Query_hangs Print Send_closed
    Send Lock Read Write Unlock_free Unlock Close Done_negative Done]:
  assumes "unit_step Query i s = Some s'"
  obtains
    q d where "i < length (units s)" "units s ! i = UQuery q" "\<not> pool_full s"
      "Query (db s) q = (Rows, d)"
      "s' = s\<lparr>units := (units s)[i := ULock], inUse := Suc (inUse s), db := d\<rparr>"
  | q e d where "i < length (units s)" "units s ! i = UQuery q" "\<not> pool_full s"
      "Query (db s) q = (Failed e, d)"
      "s' = s\<lparr>units := (units s)[i := UPrint q e], db := d\<rparr>"
  | q d where "i < length (units s)" "units s ! i = UQuery q" "\<not> pool_full s"
      "Query (db s) q = (Hangs, d)"
      "s' = s\<lparr>units := (units s)[i := UHung], inUse := Suc (inUse s), db := d\<rparr>"
  | q e where "i < length (units s)" "units s ! i = UPrint q e"
      "s' = s\<lparr>units := (units s)[i := USend e], stdout := stdout s @ [(q, e)]\<rparr>"
  | e where "i < length (units s)" "units s ! i = USend e" "errChan_closed s"
      "s' = s\<lparr>panicked := True\<rparr>"
  | e where "i < length (units s)" "units s ! i = USend e" "\<not> errChan_closed s"
      "length (errChan s) - errChan_received s < errChan_cap s"
      "s' = s\<lparr>units := (units s)[i := UWgDone (Some e)], errChan := errChan s @ [e]\<rparr>"
  | "i < length (units s)" "units s ! i = ULock" "m_owner s = None"
      "s' = s\<lparr>units := (units s)[i := URead], m_owner := Some i\<rparr>"
  | "i < length (units s)" "units s ! i = URead"
      "s' = s\<lparr>units := (units s)[i := UWrite (numberSuccess s)]\<rparr>"
  | t where "i < length (units s)" "units s ! i = UWrite t"
      "s' = s\<lparr>units := (units s)[i := UUnlock], numberSuccess := t + 1\<rparr>"
  | "i < length (units s)" "units s ! i = UUnlock" "m_owner s = None"
      "s' = s\<lparr>panicked := True\<rparr>"
  | "i < length (units s)" "units s ! i = UUnlock" "m_owner s \<noteq> None"
      "s' = s\<lparr>units := (units s)[i := UClose], m_owner := None\<rparr>"
  | "i < length (units s)" "units s ! i = UClose"
      "s' = s\<lparr>units := (units s)[i := UWgDone None], inUse := inUse s - 1\<rparr>"
  | r where "i < length (units s)" "units s ! i = UWgDone r" "wg s \<le> 0"
      "s' = s\<lparr>panicked := True\<rparr>"
  | r where "i < length (units s)" "units s ! i = UWgDone r" "\<not> wg s \<le> 0"
      "s' = s\<lparr>units := (units s)[i := UFinished r], wg := wg s - 1\<rparr>"
proof (cases "i < length (units s)")
  case False
  then show ?thesis using assms by (simp add: unit_step_def)
next
  case True
  note step = assms[unfolded unit_step_def]
  show ?thesis
  proof (cases "units s ! i")
    case (UQuery q)
    obtain r d where qr: "Query (db s) q = (r, d)" by (cases "Query (db s) q")
    have nf: "\<not> pool_full s" using step True UQuery by (simp split: if_splits)
    show ?thesis
    proof (cases r)
      case Rows
      have "s' = s\<lparr>units := (units s)[i := ULock], inUse := Suc (inUse s), db := d\<rparr>"
        using step True UQuery qr Rows nf by simp
      then show ?thesis using True UQuery qr Rows nf by (intro that(1)) auto
    next
      case (Failed e)
      have "s' = s\<lparr>units := (units s)[i := UPrint q e], db := d\<rparr>"
        using step True UQuery qr Failed nf by simp
      then show ?thesis using True UQuery qr Failed nf by (intro that(2)) auto
    next
      case Hangs
      have "s' = s\<lparr>units := (units s)[i := UHung], inUse := Suc (inUse s), db := d\<rparr>"
        using step True UQuery qr Hangs nf by simp
      then show ?thesis using True UQuery qr Hangs nf by (intro that(3)) auto
    qed
  next
    case (UPrint q e)
    have "s' = s\<lparr>units := (units s)[i := USend e], stdout := stdout s @ [(q, e)]\<rparr>"
      using step True UPrint by simp
    then show ?thesis using True UPrint by (intro that(4)) auto
  next
    case (USend e)
    show ?thesis
    proof (cases "errChan_closed s")
      case c: True
      have "s' = s\<lparr>panicked := True\<rparr>" using step True USend c by simp
      then show ?thesis using True USend c by (intro that(5)) auto
    next
      case c: False
      have "length (errChan s) - errChan_received s < errChan_cap s \<and>
            s' = s\<lparr>units := (units s)[i := UWgDone (Some e)], errChan := errChan s @ [e]\<rparr>"
        using step True USend c by (simp split: if_splits)
      then show ?thesis using True USend c by (intro that(6)) auto
    qed
  next
    case ULock
    have "m_owner s = None \<and> s' = s\<lparr>units := (units s)[i := URead], m_owner := Some i\<rparr>"
      using step True ULock by (simp split: if_splits)
    then show ?thesis using True ULock by (intro that(7)) auto
  next
    case URead
    have "s' = s\<lparr>units := (units s)[i := UWrite (numberSuccess s)]\<rparr>"
      using step True URead by simp
    then show ?thesis using True URead by (intro that(8)) auto
  next
    case (UWrite t)
    have "s' = s\<lparr>units := (units s)[i := UUnlock], numberSuccess := t + 1\<rparr>"
      using step True UWrite by simp
    then show ?thesis using True UWrite by (intro that(9)) auto
  next
    case UUnlock
    show ?thesis
    proof (cases "m_owner s = None")
      case c: True
      have "s' = s\<lparr>panicked := True\<rparr>" using step True UUnlock c by simp
      then show ?thesis using True UUnlock c by (intro that(10)) auto
    next
      case c: False
      have "s' = s\<lparr>units := (units s)[i := UClose], m_owner := None\<rparr>"
        using step True UUnlock c by simp
      then show ?thesis using True UUnlock c by (intro that(11)) auto
    qed
  next
    case UClose
    have "s' = s\<lparr>units := (units s)[i := UWgDone None], inUse := inUse s - 1\<rparr>"
      using step True UClose by simp
    then show ?thesis using True UClose by (intro that(12)) auto
  next
    case (UWgDone r)
    show ?thesis
    proof (cases "wg s \<le> 0")
      case c: True
      have "s' = s\<lparr>panicked := True\<rparr>" using step True UWgDone c by simp
      then show ?thesis using True UWgDone c by (intro that(13)) auto
    next
      case c: False
      have "s' = s\<lparr>units := (units s)[i := UFinished r], wg := wg s - 1\<rparr>"
        using step True UWgDone c by simp
      then show ?thesis using True UWgDone c by (intro that(14)) auto
    qed
  next
    case (UFinished r)
    then show ?thesis using step True by simp
  next
    case UHung
    then show ?thesis using step True by simp
  qed
qed

subsection \<open>The mutex and the counter\<close>

lemma mutex_okI:
  assumes "\<And>j. j < length us \<Longrightarrow> critical (us ! j) \<Longrightarrow> owner = Some j"
    and "\<And>j. owner = Some j \<Longrightarrow> j < length us \<and> critical (us ! j)"
  shows "mutex_ok us owner"
  unfolding mutex_ok_def using assms by blast

lemma mutex_ok_owner:
  "mutex_ok us owner \<Longrightarrow> i < length us \<Longrightarrow> critical (us ! i) \<Longrightarrow> owner = Some i"
  unfolding mutex_ok_def by blast

lemma mutex_ok_held: "mutex_ok us (Some i) \<Longrightarrow> i < length us \<and> critical (us ! i)"
  unfolding mutex_ok_def by blast

lemma mutex_ok_snoc:
  assumes "mutex_ok us owner" and "\<not> critical u"
  shows "mutex_ok (us @ [u]) owner"
proof (rule mutex_okI)
  fix j assume j: "j < length (us @ [u])" and c: "critical ((us @ [u]) ! j)"
  show "owner = Some j"
  proof (cases "j < length us")
    case True
    then have "critical (us ! j)" using c by (simp add: nth_append)
    then show ?thesis using assms(1) True by (rule mutex_ok_owner[rotated 2])
  next
    case False
    then have "j = length us" using j by simp
    then show ?thesis using c assms(2) by simp
  qed
next
  fix j assume "owner = Some j"
  then have "j < length us \<and> critical (us ! j)" using assms(1) mutex_ok_held by blast
  then show "j < length (us @ [u]) \<and> critical ((us @ [u]) ! j)" by (simp add: nth_append)
qed

lemma mutex_ok_same:
  assumes "mutex_ok us owner" and "i < length us" and "critical u = critical (us ! i)"
  shows "mutex_ok (us[i := u]) owner"
proof (rule mutex_okI)
  fix j assume j: "j < length (us[i := u])" and c: "critical (us[i := u] ! j)"
  have "critical (us ! j)"
  proof (cases "j = i")
    case True
    then show ?thesis using c assms(2,3) by simp
  next
    case False
    then show ?thesis using c by simp
  qed
  then show "owner = Some j" using assms(1) j mutex_ok_owner[of us owner j] by simp
next
  fix j assume "owner = Some j"
  then have h: "j < length us \<and> critical (us ! j)" using assms(1) mutex_ok_held by blast
  show "j < length (us[i := u]) \<and> critical (us[i := u] ! j)"
  proof (cases "j = i")
    case True
    then show ?thesis using h assms(3) by simp
  next
    case False
    then show ?thesis using h by simp
  qed
qed

lemma mutex_ok_lock:
  assumes "mutex_ok us None" and "i < length us" and "critical u"
  shows "mutex_ok (us[i := u]) (Some i)"
proof (rule mutex_okI)
  fix j assume j: "j < length (us[i := u])" and c: "critical (us[i := u] ! j)"
  show "Some i = Some j"
  proof (cases "j = i")
    case True
    then show ?thesis by simp
  next
    case False
    then have "critical (us ! j)" using c by simp
    then have "None = Some j" using assms(1) j mutex_ok_owner[of us None j] by simp
    then show ?thesis by simp
  qed
next
  fix j assume "Some i = Some j"
  then show "j < length (us[i := u]) \<and> critical (us[i := u] ! j)"
    using assms(2,3) by simp
qed

lemma mutex_ok_unlock:
  assumes "mutex_ok us owner" and "i < length us" and "critical (us ! i)" and "\<not> critical u"
  shows "mutex_ok (us[i := u]) None"
proof (rule mutex_okI)
  fix j assume j: "j < length (us[i := u])" and c: "critical (us[i := u] ! j)"
  have o: "owner = Some i" using assms(1,2,3) by (rule mutex_ok_owner)
  have ne: "j \<noteq> i" using c assms(2,4) by auto
  then have "critical (us ! j)" using c by simp
  then have "owner = Some j" using assms(1) j mutex_ok_owner[of us owner j] by simp
  then show "None = Some j" using o ne by simp
next
  fix j :: nat assume "None = Some j"
  then show "j < length (us[i := u]) \<and> critical (us[i := u] ! j)" by simp
qed

subsection \<open>Each invariant is kept by each step\<close>

lemma writers_ok_snoc:
  assumes "writers_ok us c" and "\<forall>t. u \<noteq> UWrite t"
  shows "writers_ok (us @ [u]) c"
  unfolding writers_ok_def
proof (intro allI impI)
  fix j t assume j: "j < length (us @ [u])" and w: "(us @ [u]) ! j = UWrite t"
  show "t = c"
  proof (cases "j < length us")
    case True
    then show ?thesis using assms(1) w unfolding writers_ok_def by (simp add: nth_append)
  next
    case False
    then have "j = length us" using j by simp
    then show ?thesis using w assms(2) by simp
  qed
qed

lemma writers_ok_update:
  assumes "writers_ok us c" and "\<forall>t. u = UWrite t \<longrightarrow> t = c"
  shows "writers_ok (us[i := u]) c"
  unfolding writers_ok_def
proof (intro allI impI)
  fix j t assume j: "j < length (us[i := u])" and w: "us[i := u] ! j = UWrite t"
  show "t = c"
  proof (cases "j = i")
    case True
    then show ?thesis using j w assms(2) by simp
  next
    case False
    then show ?thesis using j w assms(1) unfolding writers_ok_def by simp
  qed
qed

lemma writers_ok_leave:
  assumes "mutex_ok us owner" and "i < length us" and "critical (us ! i)"
    and "\<And>t. u \<noteq> UWrite t"
  shows "writers_ok (us[i := u]) c"
  unfolding writers_ok_def
proof (intro allI impI)
  fix j t assume j: "j < length (us[i := u])" and w: "us[i := u] ! j = UWrite t"
  have ne: "j \<noteq> i" using w assms(2,4) by auto
  then have "critical (us ! j)" using w by simp
  then have "owner = Some j" using assms(1) j mutex_ok_owner[of us owner j] by simp
  moreover have "owner = Some i" using assms(1,2,3) by (rule mutex_ok_owner)
  ultimately show "t = c" using ne by simp
qed

lemma inv_mutex_main:
  assumes "main_step logs s = Some s'" and "inv_mutex s"
  shows "inv_mutex s'"
  using assms(1)
proof (cases rule: main_stepE)
  case (Go k l)
  then show ?thesis using assms(2) by (simp add: inv_mutex_def mutex_ok_snoc)
qed (use assms(2) in \<open>simp_all add: inv_mutex_def\<close>)

lemma inv_mutex_unit:
  assumes "unit_step Query i s = Some s'" and "inv_mutex s"
  shows "inv_mutex s'"
  using assms(1)
proof (cases rule: unit_stepE)
  case Lock
  then show ?thesis using assms(2) by (simp add: inv_mutex_def mutex_ok_lock)
next
  case Unlock
  have "mutex_ok ((units s)[i := UClose]) None"
    using assms(2)[unfolded inv_mutex_def] Unlock(1) by (rule mutex_ok_unlock) (simp_all add: Unlock)
  then show ?thesis using Unlock by (simp add: inv_mutex_def)
qed (use assms(2) in \<open>simp_all add: inv_mutex_def mutex_ok_same\<close>)

lemma inv_counter_main:
  assumes "main_step logs s = Some s'" and "inv_counter s"
  shows "inv_counter s'"
  using assms(1)
proof (cases rule: main_stepE)
  case (Go k l)
  then show ?thesis using assms(2) by (simp add: inv_counter_def writers_ok_snoc)
qed (use assms(2) in \<open>simp_all add: inv_counter_def\<close>)

lemma inv_counter_unit:
  assumes "unit_step Query i s = Some s'" and "inv_counter s" and "inv_mutex s"
  shows "inv_counter s'"
  using assms(1)
proof (cases rule: unit_stepE)
  case (Write t)
  have t: "t = numberSuccess s"
    using assms(2) Write(1,2) unfolding inv_counter_def writers_ok_def by blast
  have "writers_ok ((units s)[i := UUnlock]) (t + 1)"
    using assms(3)[unfolded inv_mutex_def] Write(1) by (rule writers_ok_leave) (simp_all add: Write)
  then show ?thesis
    using assms(2) Write t by (simp add: inv_counter_def tally_update)
next
  case (Done r)
  then show ?thesis
    using assms(2) by (cases r) (simp_all add: inv_counter_def tally_update writers_ok_update)
qed (use assms(2) in \<open>simp_all add: inv_counter_def tally_update writers_ok_update\<close>)

lemma inv_chan_main:
  assumes "main_step logs s = Some s'" and "inv_chan n s"
  shows "inv_chan n s'"
  using assms(1)
  by (cases rule: main_stepE) (use assms(2) in \<open>simp_all add: inv_chan_def\<close>)

lemma inv_chan_unit:
  assumes "unit_step Query i s = Some s'" and "inv_chan n s"
  shows "inv_chan n s'"
  using assms(1)
proof (cases rule: unit_stepE)
  case (Done r)
  then show ?thesis
    using assms(2) by (cases r) (simp_all add: inv_chan_def tally_update)
qed (use assms(2) in \<open>simp_all add: inv_chan_def tally_update\<close>)

lemma inv_closed_main:
  assumes "main_step logs s = Some s'" and "inv_closed s"
  shows "inv_closed s'"
  using assms(1)
  by (cases rule: main_stepE) (use assms(2) in \<open>simp_all add: inv_closed_def\<close>)

lemma inv_closed_unit:
  assumes "unit_step Query i s = Some s'" and "inv_closed s"
  shows "inv_closed s'"
  using assms(1)
proof (cases rule: unit_stepE)
  case (Done r)
  then show ?thesis using assms(2) by (auto simp: inv_closed_def)
qed (use assms(2) in \<open>simp_all add: inv_closed_def\<close>)

lemma inv_pool_main:
  assumes "main_step logs s = Some s'" and "inv_pool s"
  shows "inv_pool s'"
  using assms(1)
  by (cases rule: main_stepE) (use assms(2) in \<open>simp_all add: inv_pool_def\<close>)

lemma inv_pool_unit:
  assumes "unit_step Query i s = Some s'" and "inv_pool s"
  shows "inv_pool s'"
  using assms(1)
proof (cases rule: unit_stepE)
  case Close
  have "0 < tally holding (units s)"
    using Close by (intro tally_pos[of i]) simp_all
  then have "0 < inUse s" using assms(2) by (simp add: inv_pool_def)
  then show ?thesis
    using assms(2) Close by (simp add: inv_pool_def tally_update)
qed (use assms(2) in \<open>simp_all add: inv_pool_def tally_update\<close>)

lemma inv_launch_main:
  assumes "main_step logs s = Some s'" and "inv_launch (length logs) s"
  shows "inv_launch (length logs) s'"
  using assms(1)
  by (cases rule: main_stepE) (use assms(2) in \<open>auto simp: inv_launch_def\<close>)

lemma inv_launch_unit:
  assumes "unit_step Query i s = Some s'" and "inv_launch n s"
  shows "inv_launch n s'"
  using assms(1)
  by (cases rule: unit_stepE)
     (use assms(2) in \<open>auto simp: inv_launch_def split: main_pc.splits\<close>)

lemma inv_wg_main:
  assumes "main_step logs s = Some s'" and "inv_wg s"
  shows "inv_wg s'"
  using assms(1)
  by (cases rule: main_stepE) (use assms(2) in \<open>auto simp: inv_wg_def\<close>)

lemma inv_wg_unit:
  assumes "unit_step Query i s = Some s'" and "inv_wg s"
  shows "inv_wg s'"
  using assms(1)
  by (cases rule: unit_stepE) (use assms(2) in \<open>auto simp: inv_wg_def tally_update\<close>)

lemma finished_counted: "finished u \<Longrightarrow> \<not> has_sent u \<Longrightarrow> counted u"
proof (cases u)
  case (UFinished r)
  then show "\<not> has_sent u \<Longrightarrow> counted u" by (cases r) simp_all
qed simp_all

lemma all_counted:
  assumes "tally (\<lambda>u. \<not> finished u) us = 0" and "tally has_sent us = 0"
  shows "tally counted us = int (length us)"
proof (rule tally_all)
  fix i assume i: "i < length us"
  have "finished (us ! i)" using tally_zero[OF assms(1) i] by simp
  moreover have "\<not> has_sent (us ! i)" using assms(2) i by (rule tally_zero)
  ultimately show "counted (us ! i)" by (rule finished_counted)
qed

lemma inv_result_main:
  assumes "main_step logs s = Some s'" and "inv_result (length logs) s"
    and "inv_launch (length logs) s" and "inv_wg s" and "inv_counter s"
    and "inv_chan (length logs) s" and "inv_closed s"
  shows "inv_result (length logs) s'"
  using assms(1)
proof (cases rule: main_stepE)
  case Len_some
  then show ?thesis using assms(2) by (auto simp: inv_result_def)
next
  case Len_none
  then show ?thesis using assms(2,6) by (simp add: inv_result_def inv_chan_def)
next
  case Recv
  have "errChan_received s = 0" using assms(6) Recv by (simp add: inv_chan_def)
  then show ?thesis using Recv by (auto simp: inv_result_def hd_conv_nth)
next
  case Recv_empty
  have "errChan_received s = 0" using assms(6) Recv_empty by (simp add: inv_chan_def)
  moreover have "errChan s \<noteq> []" using assms(2) Recv_empty by (simp add: inv_result_def)
  ultimately show ?thesis using Recv_empty by simp
next
  case Ret
  have e: "errChan s = []" using assms(2) Ret by (simp add: inv_result_def)
  have "wg s = 0" using assms(7) Ret by (simp add: inv_closed_def)
  then have a: "tally (\<lambda>u. \<not> finished u) (units s) = 0" using assms(4) Ret by (simp add: inv_wg_def)
  have b: "tally has_sent (units s) = 0" using assms(6) e by (simp add: inv_chan_def)
  have "length (units s) = length logs" using assms(3) Ret by (simp add: inv_launch_def)
  then have "numberSuccess s = int (length logs)"
    using all_counted[OF a b] assms(5) by (simp add: inv_counter_def)
  then show ?thesis using Ret e by (simp add: inv_result_def)
qed (simp_all add: inv_result_def)

lemma inv_result_unit:
  assumes "unit_step Query i s = Some s'" and "inv_result n s" and "inv_closed s"
  shows "inv_result n s'"
  using assms(1)
proof (cases rule: unit_stepE)
  case (Send e)
  then have "launching (main s) \<or> main s = MClose" using assms(3) by (auto simp: inv_closed_def)
  then show ?thesis using Send by (auto simp: inv_result_def)
qed (use assms(2) in \<open>simp_all add: inv_result_def\<close>)


lemma stepE [consumes 1, case_names Main_step Unit_step]:
  assumes "QueryConcurrency_step Query logs t s = Some s'"
  obtains "\<not> panicked s" "t = Main" "main_step logs s = Some s'"
  | i where "\<not> panicked s" "t = Unit i" "unit_step Query i s = Some s'"
proof (cases t)
  case Main
  then show ?thesis using assms that(1) by (simp add: QueryConcurrency_step_def split: if_splits)
next
  case (Unit i)
  then show ?thesis using assms that(2) by (simp add: QueryConcurrency_step_def split: if_splits)
qed

lemma step_invariant:
  assumes "QueryConcurrency_step Query logs t s = Some s'" and "invariant (length logs) s"
  shows "invariant (length logs) s'"
proof -
  from assms(2) have i: "inv_launch (length logs) s" "inv_wg s" "inv_mutex s" "inv_counter s"
    "inv_chan (length logs) s" "inv_closed s" "inv_pool s" "inv_result (length logs) s"
    by (simp_all add: invariant_def)
  from assms(1) show ?thesis
  proof (cases rule: stepE)
    case Main_step
    note st = Main_step(3)
    have "inv_launch (length logs) s'" using st i(1) by (rule inv_launch_main)
    moreover have "inv_wg s'" using st i(2) by (rule inv_wg_main)
    moreover have "inv_mutex s'" using st i(3) by (rule inv_mutex_main)
    moreover have "inv_counter s'" using st i(4) by (rule inv_counter_main)
    moreover have "inv_chan (length logs) s'" using st i(5) by (rule inv_chan_main)
    moreover have "inv_closed s'" using st i(6) by (rule inv_closed_main)
    moreover have "inv_pool s'" using st i(7) by (rule inv_pool_main)
    moreover have "inv_result (length logs) s'"
      using st i(8) i(1) i(2) i(4) i(5) i(6) by (rule inv_result_main)
    ultimately show ?thesis by (simp add: invariant_def)
  next
    case (Unit_step j)
    note st = Unit_step(3)
    have "inv_launch (length logs) s'" using st i(1) by (rule inv_launch_unit)
    moreover have "inv_wg s'" using st i(2) by (rule inv_wg_unit)
    moreover have "inv_mutex s'" using st i(3) by (rule inv_mutex_unit)
    moreover have "inv_counter s'" using st i(4) i(3) by (rule inv_counter_unit)
    moreover have "inv_chan (length logs) s'" using st i(5) by (rule inv_chan_unit)
    moreover have "inv_closed s'" using st i(6) by (rule inv_closed_unit)
    moreover have "inv_pool s'" using st i(7) by (rule inv_pool_unit)
    moreover have "inv_result (length logs) s'" using st i(8) i(6) by (rule inv_result_unit)
    ultimately show ?thesis by (simp add: invariant_def)
  qed
qed

lemma init_state:
  assumes "Connection sql_Open (dsn_of c) = Inr cn"
  shows "QueryConcurrency_init sql_Open d logs (Some c) =
    \<lparr>main = MFor 0, units = [], conn = Some cn, numberSuccess = 0, m_owner = None,
     wg = 0, errChan = [], errChan_cap = length logs, errChan_received = 0,
     errChan_closed = False, inUse = 0, stdout = [], db = d, panicked = False\<rparr>"
  using assms by (simp add: QueryConcurrency_init_def)

lemma init_invariant:
  assumes "Connection sql_Open (dsn_of c) = Inr cn"
  shows "invariant (length logs) (QueryConcurrency_init sql_Open d logs (Some c))"
  unfolding init_state[OF assms]
  by (simp add: invariant_def inv_launch_def inv_wg_def inv_mutex_def mutex_ok_def
      inv_counter_def writers_ok_def inv_chan_def inv_closed_def inv_pool_def inv_result_def)

lemma run_invariant:
  "run Query logs sched s = Some s' \<Longrightarrow> invariant (length logs) s \<Longrightarrow>
   invariant (length logs) s'"
proof (induction sched arbitrary: s)
  case Nil
  then show ?case by simp
next
  case (Cons t ts)
  then obtain s1 where s1: "QueryConcurrency_step Query logs t s = Some s1"
    and r: "run Query logs ts s1 = Some s'"
    by (auto split: option.splits)
  have "invariant (length logs) s1" using s1 Cons.prems(2) by (rule step_invariant)
  then show ?case using Cons.IH r by blast
qed

subsection \<open>No panic and no hung unit\<close>

lemma unfinished_wg:
  assumes "inv_wg s" and "i < length (units s)" and "\<not> finished (units s ! i)"
  shows "0 < wg s"
proof -
  have "0 < tally (\<lambda>u. \<not> finished u) (units s)"
    using assms(2,3) by (rule tally_pos)
  then show ?thesis using assms(1) by (simp add: inv_wg_def)
qed

lemma unit_step_no_panic:
  assumes "unit_step Query i s = Some s'" and "invariant n s" and "\<not> panicked s"
  shows "\<not> panicked s'"
  using assms(1)
proof (cases rule: unit_stepE)
  case (Send_closed e)
  have "0 < wg s" using assms(2) Send_closed by (intro unfinished_wg[of s i]) (simp_all add: invariant_def)
  moreover have "wg s = 0" using assms(2) Send_closed by (simp add: invariant_def inv_closed_def)
  ultimately show ?thesis by simp
next
  case Unlock_free
  have "mutex_ok (units s) (m_owner s)" using assms(2) by (simp add: invariant_def inv_mutex_def)
  then have "m_owner s = Some i" using Unlock_free(1) by (rule mutex_ok_owner) (simp add: Unlock_free)
  then show ?thesis using Unlock_free by simp
next
  case (Done_negative r)
  have "0 < wg s" using assms(2) Done_negative by (intro unfinished_wg[of s i]) (simp_all add: invariant_def)
  then show ?thesis using Done_negative by simp
qed (use assms(3) in simp_all)

lemma main_step_no_panic:
  assumes "main_step logs s = Some s'" and "None \<notin> set logs" and "\<not> panicked s"
  shows "\<not> panicked s'"
  using assms(1)
proof (cases rule: main_stepE)
  case (Go_nil k)
  then have "None \<in> set logs" by (metis nth_mem)
  then show ?thesis using assms(2) by simp
qed (use assms(3) in simp_all)

lemma step_no_panic:
  assumes "QueryConcurrency_step Query logs t s = Some s'" and "invariant n s"
    and "None \<notin> set logs"
  shows "\<not> panicked s'"
  using assms(1)
proof (cases rule: stepE)
  case Main_step
  then show ?thesis using assms(3) main_step_no_panic by blast
next
  case (Unit_step i)
  then show ?thesis using assms(2) unit_step_no_panic by blast
qed

lemma run_no_panic:
  "run Query logs sched s = Some s' \<Longrightarrow> invariant (length logs) s \<Longrightarrow> None \<notin> set logs \<Longrightarrow>
   \<not> panicked s \<Longrightarrow> \<not> panicked s'"
proof (induction sched arbitrary: s)
  case Nil
  then show ?case by simp
next
  case (Cons t ts)
  then obtain s1 where s1: "QueryConcurrency_step Query logs t s = Some s1"
    and r: "run Query logs ts s1 = Some s'"
    by (auto split: option.splits)
  have "invariant (length logs) s1" using s1 Cons.prems(2) by (rule step_invariant)
  moreover have "\<not> panicked s1" using s1 Cons.prems(2,3) by (rule step_no_panic)
  ultimately show ?case using Cons.IH r Cons.prems(3) by blast
qed

lemma step_no_hang:
  assumes "QueryConcurrency_step Query logs t s = Some s'" and "\<forall>d q. fst (Query d q) \<noteq> Hangs"
    and "UHung \<notin> set (units s)"
  shows "UHung \<notin> set (units s')"
  using assms(1)
proof (cases rule: stepE)
  case Main_step
  from Main_step(3) show ?thesis
    by (cases rule: main_stepE) (use assms(3) in simp_all)
next
  case (Unit_step i)
  have u: "\<And>u. u \<noteq> UHung \<Longrightarrow> UHung \<notin> set ((units s)[i := u])"
    using assms(3) set_update_subset_insert[of "units s" i] by blast
  from Unit_step(3) show ?thesis
  proof (cases rule: unit_stepE)
    case (Query_hangs q d)
    then have "fst (Query (db s) q) = Hangs" by simp
    then show ?thesis using assms(2) by simp
  qed (use assms(3) u in simp_all)
qed

lemma run_no_hang:
  "run Query logs sched s = Some s' \<Longrightarrow> \<forall>d q. fst (Query d q) \<noteq> Hangs \<Longrightarrow>
   UHung \<notin> set (units s) \<Longrightarrow> UHung \<notin> set (units s')"
proof (induction sched arbitrary: s)
  case Nil
  then show ?case by simp
next
  case (Cons t ts)
  then obtain s1 where s1: "QueryConcurrency_step Query logs t s = Some s1"
    and r: "run Query logs ts s1 = Some s'"
    by (auto split: option.splits)
  have "UHung \<notin> set (units s1)" using s1 Cons.prems(2,3) by (rule step_no_hang)
  then show ?case using Cons.IH r Cons.prems(2) by blast
qed

subsection \<open>Every run is finite\<close>

lemma rank_update:
  assumes "i < length us" and "unit_rank u < unit_rank (us ! i)"
  shows "sum_list (map unit_rank (us[i := u])) < sum_list (map unit_rank us)"
proof -
  have "unit_rank (us ! i) \<le> sum_list (map unit_rank us)"
    using assms(1) elem_le_sum_list[of i "map unit_rank us"] by simp
  moreover have "sum_list (map unit_rank (us[i := u]))
      = sum_list (map unit_rank us) + unit_rank u - unit_rank (us ! i)"
    using assms(1) by (simp add: map_update sum_list_update)
  ultimately show ?thesis using assms(2) by linarith
qed

lemma potential_unit:
  assumes "unit_step Query i s = Some s'" and "\<not> panicked s"
  shows "potential n s' < potential n s"
  using assms(1)
proof (cases rule: unit_stepE)
  case (Query_rows q d)
  then show ?thesis using assms(2) rank_update[of i "units s" ULock] by (simp add: potential_def)
next
  case (Query_failed q e d)
  then show ?thesis using assms(2) rank_update[of i "units s" "UPrint q e"] by (simp add: potential_def)
next
  case (Query_hangs q d)
  then show ?thesis using assms(2) rank_update[of i "units s" UHung] by (simp add: potential_def)
next
  case (Print q e)
  then show ?thesis using assms(2) rank_update[of i "units s" "USend e"] by (simp add: potential_def)
next
  case (Send e)
  then show ?thesis using assms(2) rank_update[of i "units s" "UWgDone (Some e)"] by (simp add: potential_def)
next
  case Lock
  then show ?thesis using assms(2) rank_update[of i "units s" URead] by (simp add: potential_def)
next
  case Read
  then show ?thesis
    using assms(2) rank_update[of i "units s" "UWrite (numberSuccess s)"] by (simp add: potential_def)
next
  case (Write t)
  then show ?thesis using assms(2) rank_update[of i "units s" UUnlock] by (simp add: potential_def)
next
  case Unlock
  then show ?thesis using assms(2) rank_update[of i "units s" UClose] by (simp add: potential_def)
next
  case Close
  then show ?thesis using assms(2) rank_update[of i "units s" "UWgDone None"] by (simp add: potential_def)
next
  case (Done r)
  then show ?thesis using assms(2) rank_update[of i "units s" "UFinished r"] by (simp add: potential_def)
qed (use assms(2) in \<open>simp_all add: potential_def\<close>)

lemma potential_main:
  assumes "main_step logs s = Some s'" and "\<not> panicked s"
  shows "potential (length logs) s' < potential (length logs) s"
  using assms(1)
proof (cases rule: main_stepE)
  case (Go k l)
  then have "9 * (length logs - Suc k) + 9 = 9 * (length logs - k)" by simp
  then show ?thesis using Go assms(2) by (simp add: potential_def)
qed (use assms(2) in \<open>simp_all add: potential_def\<close>)

lemma potential_step:
  assumes "QueryConcurrency_step Query logs t s = Some s'"
  shows "potential (length logs) s' < potential (length logs) s"
  using assms
proof (cases rule: stepE)
  case Main_step
  then show ?thesis using potential_main by blast
next
  case (Unit_step i)
  then show ?thesis using potential_unit by blast
qed

lemma run_potential:
  "run Query logs sched s = Some s' \<Longrightarrow>
   length sched + potential (length logs) s' \<le> potential (length logs) s"
proof (induction sched arbitrary: s)
  case Nil
  then show ?case by simp
next
  case (Cons t ts)
  then obtain s1 where s1: "QueryConcurrency_step Query logs t s = Some s1"
    and r: "run Query logs ts s1 = Some s'"
    by (auto split: option.splits)
  have "potential (length logs) s1 < potential (length logs) s" using s1 by (rule potential_step)
  moreover have "length ts + potential (length logs) s' \<le> potential (length logs) s1"
    using r by (rule Cons.IH)
  ultimately show ?case by simp
qed

lemma run_length:
  assumes "Connection sql_Open (dsn_of c) = Inr cn"
    and "run Query logs sched (QueryConcurrency_init sql_Open d logs (Some c)) = Some s"
  shows "length sched \<le> 9 * length logs + 6"
proof -
  have "potential (length logs) (QueryConcurrency_init sql_Open d logs (Some c)) = 9 * length logs + 6"
    unfolding init_state[OF assms(1)] by (simp add: potential_def)
  then show ?thesis using run_potential[OF assms(2)] by simp
qed

subsection \<open>No deadlock\<close>

lemma tally_less: "i < length xs \<Longrightarrow> \<not> P (xs ! i) \<Longrightarrow> tally P xs < int (length xs)"
proof -
  assume i: "i < length xs" and n: "\<not> P (xs ! i)"
  have "0 < tally (\<lambda>x. \<not> P x) xs" using i n by (rule tally_pos)
  moreover have "tally P xs + tally (\<lambda>x. \<not> P x) xs = int (length xs)"
    using sum_length_filter_compl[of P xs] by (simp add: tally_def)
  ultimately show ?thesis by simp
qed

lemma send_room:
  assumes "invariant n s" and "i < length (units s)" and "units s ! i = USend e"
  shows "length (errChan s) - errChan_received s < errChan_cap s"
proof -
  have "tally has_sent (units s) < int (length (units s))"
    using assms(2) by (rule tally_less) (simp add: assms(3))
  moreover have "int (length (errChan s)) = tally has_sent (units s)" and "errChan_cap s = n"
    using assms(1) by (simp_all add: invariant_def inv_chan_def)
  moreover have "length (units s) \<le> n" using assms(1) by (simp add: invariant_def inv_launch_def)
  ultimately show ?thesis by linarith
qed

lemma enabled_always:
  assumes "i < length (units s)" and "always_enabled (units s ! i)"
  shows "\<exists>s'. unit_step Query i s = Some s'"
  using assms by (cases "units s ! i") (simp_all add: unit_step_def)

lemma enabled_send:
  assumes "i < length (units s)" and "units s ! i = USend e"
    and "length (errChan s) - errChan_received s < errChan_cap s"
  shows "\<exists>s'. unit_step Query i s = Some s'"
  using assms by (simp add: unit_step_def)

lemma enabled_lock:
  assumes "i < length (units s)" and "units s ! i = ULock" and "m_owner s = None"
  shows "\<exists>s'. unit_step Query i s = Some s'"
  using assms by (simp add: unit_step_def)

lemma enabled_query:
  assumes "i < length (units s)" and "units s ! i = UQuery q" and "\<not> pool_full s"
  shows "\<exists>s'. unit_step Query i s = Some s'"
proof -
  obtain r d where qr: "Query (db s) q = (r, d)" by (cases "Query (db s) q")
  show ?thesis using assms qr by (cases r) (simp_all add: unit_step_def)
qed

lemma critical_enabled: "critical u \<Longrightarrow> always_enabled u"
  by (cases u) simp_all

lemma lock_progress:
  assumes "inv_mutex s" and "i < length (units s)" and "units s ! i = ULock"
  shows "\<exists>j s'. unit_step Query j s = Some s'"
proof (cases "m_owner s")
  case None
  then show ?thesis using enabled_lock[OF assms(2,3)] by blast
next
  case (Some k)
  then have "k < length (units s) \<and> critical (units s ! k)"
    using assms(1) mutex_ok_held[of "units s" k] by (simp add: inv_mutex_def)
  then show ?thesis using enabled_always[of k s Query] critical_enabled by blast
qed

lemma holder_progress:
  assumes "inv_mutex s" and "j < length (units s)" and "holding (units s ! j)"
    and "units s ! j \<noteq> UHung"
  shows "\<exists>k s'. unit_step Query k s = Some s'"
proof (cases "units s ! j = ULock")
  case True
  then show ?thesis using assms(1,2) lock_progress by blast
next
  case False
  then have "always_enabled (units s ! j)" using assms(3,4) by (cases "units s ! j") simp_all
  then show ?thesis using enabled_always[OF assms(2)] by blast
qed

lemma pool_full_inUse: "pool_full s \<Longrightarrow> 0 < inUse s"
  by (auto simp: pool_full_def split: option.splits)

lemma units_progress:
  assumes "invariant n s" and "UHung \<notin> set (units s)"
    and "i < length (units s)" and "\<not> finished (units s ! i)"
  shows "\<exists>j s'. unit_step Query j s = Some s'"
proof -
  have mu: "inv_mutex s" using assms(1) by (simp add: invariant_def)
  have nh: "units s ! i \<noteq> UHung" using assms(2,3) nth_mem by metis
  show ?thesis
  proof (cases "units s ! i")
    case (UQuery q)
    show ?thesis
    proof (cases "pool_full s")
      case False
      then show ?thesis using enabled_query[OF assms(3) UQuery] by blast
    next
      case True
      then have "0 < tally holding (units s)"
        using assms(1) pool_full_inUse[of s] by (simp add: invariant_def inv_pool_def)
      then obtain j where j: "j < length (units s)" "holding (units s ! j)"
        using tally_ex by blast
      have "units s ! j \<noteq> UHung" using assms(2) j(1) nth_mem by metis
      then show ?thesis using holder_progress[OF mu j] by blast
    qed
  next
    case (USend e)
    then show ?thesis
      using enabled_send[OF assms(3) USend] send_room[OF assms(1,3) USend] by blast
  next
    case ULock
    then show ?thesis using lock_progress[OF mu assms(3)] by blast
  next
    case (UFinished r)
    then show ?thesis using assms(4) by simp
  next
    case UHung
    then show ?thesis using nh by simp
  qed (use enabled_always[OF assms(3), of Query] in auto)
qed

lemma progress:
  assumes "invariant (length logs) s" and "\<not> panicked s" and "\<not> returned (main s)"
    and "UHung \<notin> set (units s)"
  shows "\<exists>t s'. QueryConcurrency_step Query logs t s = Some s'"
proof -
  have m: ?thesis if "\<exists>s'. main_step logs s = Some s'"
  proof -
    from that obtain s' where "main_step logs s = Some s'" by blast
    then have "QueryConcurrency_step Query logs Main s = Some s'"
      using assms(2) by (simp add: QueryConcurrency_step_def)
    then show ?thesis by blast
  qed
  have u: ?thesis if "\<exists>j s'. unit_step Query j s = Some s'"
  proof -
    from that obtain j s' where "unit_step Query j s = Some s'" by blast
    then have "QueryConcurrency_step Query logs (Unit j) s = Some s'"
      using assms(2) by (simp add: QueryConcurrency_step_def)
    then show ?thesis by blast
  qed
  show ?thesis
  proof (cases "main s")
    case (MFor k)
    then show ?thesis by (intro m) (simp add: main_step_def)
  next
    case (MGo k)
    then have "k < length logs" using assms(1) by (simp add: invariant_def inv_launch_def)
    then show ?thesis using MGo by (intro m) (simp add: main_step_def split: option.splits)
  next
    case MWait
    show ?thesis
    proof (cases "wg s = 0")
      case True
      then show ?thesis using MWait by (intro m) (simp add: main_step_def)
    next
      case False
      then have "0 < tally (\<lambda>u. \<not> finished u) (units s)"
        using assms(1) MWait tally_nonneg[of "\<lambda>u. \<not> finished u" "units s"]
        by (simp add: invariant_def inv_wg_def)
      then obtain i where "i < length (units s)" "\<not> finished (units s ! i)"
        using tally_ex by blast
      then show ?thesis using units_progress[OF assms(1,4)] by (intro u) blast
    qed
  next
    case MClose
    then show ?thesis by (intro m) (simp add: main_step_def)
  next
    case MLen
    then show ?thesis by (intro m) (simp add: main_step_def)
  next
    case MRecv
    then show ?thesis by (intro m) (simp add: main_step_def)
  next
    case MRet
    then show ?thesis by (intro m) (simp add: main_step_def)
  next
    case (MReturned k e)
    then show ?thesis using assms(3) by simp
  qed
qed

subsection \<open>Runs where every query succeeds, and what is returned\<close>

lemma statement_of_entry:
  assumes "k < length logs" and "logs ! k = Some l"
  shows "Message (JsonPayload l) \<in> set (statements logs)"
proof -
  have "Some l \<in> set logs" using assms by (metis nth_mem)
  then have "l \<in> set (List.map_filter id logs)"
    by (auto simp: map_filter_def intro!: image_eqI[where x = "Some l"])
  then show ?thesis by (simp add: statements_def)
qed

lemma list_all_update: "list_all P xs \<Longrightarrow> P y \<Longrightarrow> list_all P (xs[i := y])"
  using set_update_subset_insert[of xs i y] by (auto simp: list_all_iff)

lemma success_path_step:
  assumes "QueryConcurrency_step Query logs t s = Some s'"
    and "\<forall>d. \<forall>q\<in>set (statements logs). fst (Query d q) = Rows"
    and "list_all (on_success_path logs) (units s)"
  shows "list_all (on_success_path logs) (units s')"
  using assms(1)
proof (cases rule: stepE)
  case Main_step
  from Main_step(3) show ?thesis
  proof (cases rule: main_stepE)
    case (Go k l)
    then show ?thesis using assms(3) statement_of_entry[of k logs l] by simp
  qed (use assms(3) in simp_all)
next
  case (Unit_step i)
  have at: "i < length (units s) \<Longrightarrow> on_success_path logs (units s ! i)"
    using assms(3) by (simp add: list_all_length)
  have rows: "\<And>q. i < length (units s) \<Longrightarrow> units s ! i = UQuery q \<Longrightarrow> fst (Query (db s) q) = Rows"
    using at assms(2) by auto
  from Unit_step(3) show ?thesis
  proof (cases rule: unit_stepE)
    case (Query_failed q e d)
    then show ?thesis using rows[of q] by simp
  next
    case (Query_hangs q d)
    then show ?thesis using rows[of q] by simp
  next
    case (Print q e)
    then show ?thesis using at by simp
  next
    case (Send e)
    then show ?thesis using at by simp
  next
    case (Done r)
    then show ?thesis using at assms(3) by (cases r) (simp_all add: list_all_update)
  qed (use assms(3) in \<open>simp_all add: list_all_update\<close>)
qed

lemma success_path_run:
  "run Query logs sched s = Some s' \<Longrightarrow>
   \<forall>d. \<forall>q\<in>set (statements logs). fst (Query d q) = Rows \<Longrightarrow>
   list_all (on_success_path logs) (units s) \<Longrightarrow> list_all (on_success_path logs) (units s')"
proof (induction sched arbitrary: s)
  case Nil
  then show ?case by simp
next
  case (Cons t ts)
  then obtain s1 where s1: "QueryConcurrency_step Query logs t s = Some s1"
    and r: "run Query logs ts s1 = Some s'"
    by (auto split: option.splits)
  have "list_all (on_success_path logs) (units s1)" using s1 Cons.prems(2,3) by (rule success_path_step)
  then show ?case using Cons.IH r Cons.prems(2) by blast
qed

lemma success_path_not_hung: "list_all (on_success_path logs) us \<Longrightarrow> UHung \<notin> set us"
  by (auto simp: list_all_iff)

lemma success_path_not_sent:
  assumes "list_all (on_success_path logs) us"
  shows "tally has_sent us = 0"
proof (rule ccontr)
  assume "tally has_sent us \<noteq> 0"
  then have "0 < tally has_sent us" using tally_nonneg[of has_sent us] by simp
  then obtain i where i: "i < length us" "has_sent (us ! i)" using tally_ex by blast
  then have "on_success_path logs (us ! i)" using assms by (simp add: list_all_length)
  then show False using i(2) by (cases "us ! i" rule: has_sent.cases) simp_all
qed

lemma returned_all_finished:
  assumes "invariant n s" and "returned (main s)"
  shows "tally (\<lambda>u. \<not> finished u) (units s) = 0"
proof -
  have "errChan_closed s" using assms by (cases "main s") (simp_all add: invariant_def inv_closed_def)
  then have "wg s = 0" using assms(1) by (simp add: invariant_def inv_closed_def)
  moreover have "\<not> is_go (main s)" using assms(2) by (cases "main s") simp_all
  ultimately show ?thesis using assms(1) by (simp add: invariant_def inv_wg_def)
qed

lemma failed_finished_sent: "failed u \<Longrightarrow> finished u \<Longrightarrow> has_sent u"
  by (cases u rule: has_sent.cases) simp_all


subsection \<open>The results of QueryConcurrency\<close>

lemma step_returned:
  "main s = MReturned n e \<Longrightarrow> units s = [] \<Longrightarrow> QueryConcurrency_step Query logs t s = None"
  by (cases t) (simp_all add: QueryConcurrency_step_def main_step_def unit_step_def)

text \<open>
  C7. When the pooled connection cannot be opened, QueryConcurrency has returned 0 and the
  error of the connection before anything else happens: the run has no step, no unit is
  started, the database is given no statement and nothing is printed.
\<close>

theorem connect_failure_aborts:
  assumes "Connection sql_Open (dsn_of c) = Inl err"
    and "run Query logs sched (QueryConcurrency_init sql_Open d logs (Some c)) = Some s"
  shows "sched = [] \<and> main s = MReturned 0 (Some err) \<and> units s = [] \<and> db s = d \<and>
         stdout s = []"
proof -
  let ?s = "QueryConcurrency_init sql_Open d logs (Some c)"
  have i: "main ?s = MReturned 0 (Some err)" "units ?s = []" "db ?s = d" "stdout ?s = []"
    using assms(1) by (simp_all add: QueryConcurrency_init_def)
  have "sched = []"
  proof (cases sched)
    case (Cons t ts)
    then show ?thesis using assms(2) step_returned[OF i(1) i(2), of Query logs t] by simp
  qed simp
  then show ?thesis using assms(2) i by simp
qed

theorem connect_failure_aborts_witness:
  "main (QueryConcurrency_init open_fails (0::nat) sample_logs (Some sample_config))
     = MReturned 0 (Some (DriverError ''invalid connection string'')) \<and>
   db (QueryConcurrency_init open_fails (0::nat) sample_logs (Some sample_config)) = 0 \<and>
   run sample_Query sample_logs [Main]
     (QueryConcurrency_init open_fails 0 sample_logs (Some sample_config)) = None"
proof -
  let ?s = "QueryConcurrency_init open_fails (0::nat) sample_logs (Some sample_config)"
  have c: "Connection open_fails (dsn_of sample_config)
             = Inl (DriverError ''invalid connection string'')"
    by (simp add: Connection_def open_fails_def)
  have r: "run sample_Query sample_logs [] ?s = Some ?s" by simp
  have a: "main ?s = MReturned 0 (Some (DriverError ''invalid connection string'')) \<and> db ?s = 0"
    using connect_failure_aborts[OF c r] by simp
  have n: "run sample_Query sample_logs [Main] ?s = None"
  proof (cases "run sample_Query sample_logs [Main] ?s")
    case (Some s)
    then show ?thesis using connect_failure_aborts[OF c Some] by simp
  qed simp
  from a n show ?thesis by blast
qed

lemma init_units:
  assumes "Connection sql_Open (dsn_of c) = Inr cn"
  shows "units (QueryConcurrency_init sql_Open d logs (Some c)) = []"
    and "\<not> panicked (QueryConcurrency_init sql_Open d logs (Some c))"
  unfolding init_state[OF assms] by simp_all

text \<open>
  C1. Take a run in which the connection opens, no entry is \<^verbatim>\<open>nil\<close> and every query
  returns. Under every schedule the run has at most \<open>9 * N + 6\<close> steps and some goroutine
  can step until the call has returned. When it has returned and one or more units have
  failed, the success count it returns is 0 and the error is the first one that was sent
  into the error channel, however many units succeeded.
\<close>

theorem failure_reports_zero:
  assumes "Connection sql_Open (dsn_of c) = Inr cn"
    and "None \<notin> set logs"
    and "\<forall>d q. fst (Query d q) \<noteq> Hangs"
    and "run Query logs sched (QueryConcurrency_init sql_Open d logs (Some c)) = Some s"
  shows "length sched \<le> 9 * length logs + 6 \<and>
         (\<not> returned (main s) \<longrightarrow> (\<exists>t s'. QueryConcurrency_step Query logs t s = Some s')) \<and>
         (\<forall>k e. main s = MReturned k e \<longrightarrow> (\<exists>i<length (units s). failed (units s ! i)) \<longrightarrow>
            k = 0 \<and> errChan s \<noteq> [] \<and> e = Some (hd (errChan s)))"
proof (intro conjI impI allI)
  let ?s0 = "QueryConcurrency_init sql_Open d logs (Some c)"
  have inv: "invariant (length logs) s"
    using assms(4) init_invariant[OF assms(1)] by (rule run_invariant)
  have np: "\<not> panicked s"
    using assms(4) init_invariant[OF assms(1)] assms(2) init_units(2)[OF assms(1)]
    by (rule run_no_panic)
  have nh: "UHung \<notin> set (units s)"
    using assms(4) assms(3) by (rule run_no_hang) (simp add: init_units(1)[OF assms(1)])
  show "length sched \<le> 9 * length logs + 6" using assms(1,4) by (rule run_length)
  show "\<exists>t s'. QueryConcurrency_step Query logs t s = Some s'" if "\<not> returned (main s)"
    using inv np that nh by (rule progress)
  fix k e assume ret: "main s = MReturned k e" and f: "\<exists>i<length (units s). failed (units s ! i)"
  from f obtain i where i: "i < length (units s)" "failed (units s ! i)" by blast
  have "tally (\<lambda>u. \<not> finished u) (units s) = 0"
    using inv by (rule returned_all_finished) (simp add: ret)
  then have "finished (units s ! i)" using tally_zero i(1) by fastforce
  then have "has_sent (units s ! i)" using i(2) failed_finished_sent by blast
  then have "0 < tally has_sent (units s)" using i(1) tally_pos by blast
  then have ne: "errChan s \<noteq> []" using inv by (auto simp: invariant_def inv_chan_def)
  have "(e = None \<and> k = int (length logs) \<and> errChan s = []) \<or>
        (k = 0 \<and> errChan s \<noteq> [] \<and> e = Some (hd (errChan s)))"
    using inv ret by (simp add: invariant_def inv_result_def)
  then show "k = 0" and "errChan s \<noteq> []" and "e = Some (hd (errChan s))" using ne by auto
qed

theorem failure_reports_zero_witness:
  "(case run sample_Query sample_logs sample_schedule
           (QueryConcurrency_init open_ok 0 sample_logs (Some sample_config)) of
      None \<Rightarrow> False
    | Some s \<Rightarrow>
        main s = MReturned 0 (Some (DriverError ''empty query'')) \<and> numberSuccess s = 1 \<and>
        units s = [UFinished None, UFinished (Some (DriverError ''empty query''))])"
proof -
  let ?r = "run sample_Query sample_logs sample_schedule
              (QueryConcurrency_init open_ok 0 sample_logs (Some sample_config))"
  obtain cn where c: "Connection open_ok (dsn_of sample_config) = Inr cn"
    using sample_connection by blast
  have n: "None \<notin> set sample_logs" by (simp add: sample_logs_def)
  have h: "\<forall>d q. fst (sample_Query d q) \<noteq> Hangs" by (simp add: sample_Query_def)
  have some: "?r \<noteq> None" by code_simp
  then obtain s where s: "?r = Some s" by blast
  have u: "units (the ?r) = [UFinished None, UFinished (Some (DriverError ''empty query''))]"
    by code_simp
  have ret: "returned (main (the ?r))" by code_simp
  have e: "errChan (the ?r) = [DriverError ''empty query'']" by code_simp
  have k: "numberSuccess (the ?r) = 1" by code_simp
  obtain k' e' where m: "main s = MReturned k' e'" using ret s by (cases "main s") simp_all
  have f: "\<exists>i<length (units s). failed (units s ! i)"
    using u s by (intro exI[of _ 1]) simp
  have "k' = 0 \<and> errChan s \<noteq> [] \<and> e' = Some (hd (errChan s))"
    using failure_reports_zero[OF c n h s] m f by blast
  then show ?thesis using s m u e k by simp
qed

text \<open>
  C2. Take a run in which the connection opens, no entry is \<^verbatim>\<open>nil\<close> and every statement
  of the entries executes without an error, whatever the state of the database. Under
  every schedule the run has at most \<open>9 * N + 6\<close> steps and some goroutine can step
  until the call has returned, and it returns the success count \<open>N\<close> and a \<^verbatim>\<open>nil\<close> error.
\<close>

theorem all_succeed_reports_count:
  assumes "Connection sql_Open (dsn_of c) = Inr cn"
    and "None \<notin> set logs"
    and "\<forall>d. \<forall>q\<in>set (statements logs). fst (Query d q) = Rows"
    and "run Query logs sched (QueryConcurrency_init sql_Open d logs (Some c)) = Some s"
  shows "length sched \<le> 9 * length logs + 6 \<and>
         (\<not> returned (main s) \<longrightarrow> (\<exists>t s'. QueryConcurrency_step Query logs t s = Some s')) \<and>
         (\<forall>k e. main s = MReturned k e \<longrightarrow> k = int (length logs) \<and> e = None)"
proof (intro conjI impI allI)
  have inv: "invariant (length logs) s"
    using assms(4) init_invariant[OF assms(1)] by (rule run_invariant)
  have np: "\<not> panicked s"
    using assms(4) init_invariant[OF assms(1)] assms(2) init_units(2)[OF assms(1)]
    by (rule run_no_panic)
  have sp: "list_all (on_success_path logs) (units s)"
    using assms(4) assms(3) by (rule success_path_run) (simp add: init_units(1)[OF assms(1)])
  have nh: "UHung \<notin> set (units s)" using sp by (rule success_path_not_hung)
  show "length sched \<le> 9 * length logs + 6" using assms(1,4) by (rule run_length)
  show "\<exists>t s'. QueryConcurrency_step Query logs t s = Some s'" if "\<not> returned (main s)"
    using inv np that nh by (rule progress)
  fix k e assume ret: "main s = MReturned k e"
  have "tally has_sent (units s) = 0" using sp by (rule success_path_not_sent)
  then have "errChan s = []" using inv by (simp add: invariant_def inv_chan_def)
  moreover have "(e = None \<and> k = int (length logs) \<and> errChan s = []) \<or>
        (k = 0 \<and> errChan s \<noteq> [] \<and> e = Some (hd (errChan s)))"
    using inv ret by (simp add: invariant_def inv_result_def)
  ultimately show "k = int (length logs)" and "e = None" by auto
qed

theorem all_succeed_reports_count_witness:
  "(case run sample_Query good_logs good_schedule
           (QueryConcurrency_init open_ok 0 good_logs (Some sample_config)) of
      None \<Rightarrow> False
    | Some s \<Rightarrow> main s = MReturned 2 None \<and> db s = 2)"
proof -
  let ?r = "run sample_Query good_logs good_schedule
              (QueryConcurrency_init open_ok 0 good_logs (Some sample_config))"
  obtain cn where c: "Connection open_ok (dsn_of sample_config) = Inr cn"
    using sample_connection by blast
  have n: "None \<notin> set good_logs" by (simp add: good_logs_def)
  have st: "statements good_logs = [runes ''select 1'', runes ''select 2'']"
    by (simp add: statements_def good_logs_def map_filter_def entry_of_def)
  have h: "\<forall>d. \<forall>q\<in>set (statements good_logs). fst (sample_Query d q) = Rows"
    unfolding st by (simp add: sample_Query_def runes_def)
  have some: "?r \<noteq> None" by code_simp
  then obtain s where s: "?r = Some s" by blast
  have ret: "returned (main (the ?r))" by code_simp
  have d: "db (the ?r) = 2" by code_simp
  obtain k' e' where m: "main s = MReturned k' e'" using ret s by (cases "main s") simp_all
  have "k' = int (length good_logs) \<and> e' = None"
    using all_succeed_reports_count[OF c n h s] m by blast
  then show ?thesis using s m d by (simp add: good_logs_def)
qed

text \<open>
  C9. The error channel has the capacity of the number of entries. In every state of a
  run the errors recorded in it are as many as the units that have sent, each its one
  error, and never more than the capacity; and a unit that is about to send finds room in
  the buffer, so its send is a step it can take.
\<close>

theorem error_channel_has_room:
  assumes "Connection sql_Open (dsn_of c) = Inr cn"
    and "run Query logs sched (QueryConcurrency_init sql_Open d logs (Some c)) = Some s"
  shows "errChan_cap s = length logs \<and> length (errChan s) \<le> errChan_cap s \<and>
         int (length (errChan s)) = tally has_sent (units s) \<and>
         (\<forall>i e. i < length (units s) \<longrightarrow> units s ! i = USend e \<longrightarrow>
            length (errChan s) - errChan_received s < errChan_cap s \<and>
            (\<not> panicked s \<longrightarrow> (\<exists>s'. QueryConcurrency_step Query logs (Unit i) s = Some s')))"
proof (intro conjI impI allI)
  have inv: "invariant (length logs) s"
    using assms(2) init_invariant[OF assms(1)] by (rule run_invariant)
  show cap: "errChan_cap s = length logs" using inv by (simp add: invariant_def inv_chan_def)
  show t: "int (length (errChan s)) = tally has_sent (units s)"
    using inv by (simp add: invariant_def inv_chan_def)
  have "length (units s) \<le> length logs" using inv by (simp add: invariant_def inv_launch_def)
  then show "length (errChan s) \<le> errChan_cap s"
    using t cap tally_le[of has_sent "units s"] by linarith
  fix i e assume i: "i < length (units s)" and u: "units s ! i = USend e"
  show room: "length (errChan s) - errChan_received s < errChan_cap s"
    using inv i u by (rule send_room)
  show "\<exists>s'. QueryConcurrency_step Query logs (Unit i) s = Some s'" if "\<not> panicked s"
    using enabled_send[OF i u room, of Query] that by (simp add: QueryConcurrency_step_def)
qed

theorem error_channel_has_room_witness:
  "(case run sample_Query sample_logs (take 9 sample_schedule)
           (QueryConcurrency_init open_ok 0 sample_logs (Some sample_config)) of
      None \<Rightarrow> False
    | Some s \<Rightarrow>
        units s ! 1 = USend (DriverError ''empty query'') \<and> errChan_cap s = 2 \<and>
        length (errChan s) - errChan_received s < errChan_cap s \<and>
        QueryConcurrency_step sample_Query sample_logs (Unit 1) s \<noteq> None)"
proof -
  let ?r = "run sample_Query sample_logs (take 9 sample_schedule)
              (QueryConcurrency_init open_ok 0 sample_logs (Some sample_config))"
  obtain cn where c: "Connection open_ok (dsn_of sample_config) = Inr cn"
    using sample_connection by blast
  have some: "?r \<noteq> None" by code_simp
  then obtain s where s: "?r = Some s" by blast
  have u: "units (the ?r) = [URead, USend (DriverError ''empty query'')]" by code_simp
  have p: "\<not> panicked (the ?r)" by code_simp
  have us: "units s = [URead, USend (DriverError ''empty query'')]" using u s by simp
  have i: "1 < length (units s)" and a: "units s ! 1 = USend (DriverError ''empty query'')"
    using us by simp_all
  note t = error_channel_has_room[OF c s]
  have "errChan_cap s = length sample_logs" using t by blast
  moreover have "length (errChan s) - errChan_received s < errChan_cap s \<and>
         (\<not> panicked s \<longrightarrow> (\<exists>s'. QueryConcurrency_step sample_Query sample_logs (Unit 1) s = Some s'))"
    using t i a by blast
  ultimately show ?thesis using s a p by (auto simp: sample_logs_def)
qed


end
